theory Spec2Isabelle
  imports Main "HOL-Library.Sublist"
begin

section \<open>Text: characters, case folding, substring tests\<close>

text \<open>
  A Python \<open>str\<close> is modelled as a \<open>string\<close> whose characters are the code points
  U+0000 .. U+00FF (Latin-1), one \<open>char\<close> per code point, so that \<open>length\<close> is
  Python's \<open>len\<close>. The character tests below are Python's on that range.
\<close>

definition code :: "char \<Rightarrow> nat" where
  "code c = of_char c"

text \<open>The code points that \<open>str.lower\<close> changes: A-Z and the Latin-1 capitals.\<close>

definition is_upper :: "char \<Rightarrow> bool" where
  "is_upper c = ((65 \<le> code c \<and> code c \<le> 90) \<or> (192 \<le> code c \<and> code c \<le> 214)
     \<or> (216 \<le> code c \<and> code c \<le> 222))"

definition lower_char :: "char \<Rightarrow> char" where
  "lower_char c = (if is_upper c then char_of (code c + 32) else c)"

text \<open>The inverse direction, for the code points that have a capital in the range.\<close>

definition has_upper :: "char \<Rightarrow> bool" where
  "has_upper c = ((97 \<le> code c \<and> code c \<le> 122) \<or> (224 \<le> code c \<and> code c \<le> 246)
     \<or> (248 \<le> code c \<and> code c \<le> 254))"

definition upper_char :: "char \<Rightarrow> char" where
  "upper_char c = (if has_upper c then char_of (code c - 32) else c)"

text \<open>\<open>str.lower()\<close>\<close>

definition lower :: "string \<Rightarrow> string" where
  "lower s = map lower_char s"

text \<open>\<open>str.isspace\<close> on one character, which is what \<open>\s\<close> matches.\<close>

definition is_space :: "char \<Rightarrow> bool" where
  "is_space c = ((9 \<le> code c \<and> code c \<le> 13) \<or> (28 \<le> code c \<and> code c \<le> 32)
     \<or> code c = 133 \<or> code c = 160)"

text \<open>What \<open>\d\<close> matches: the decimal digits.\<close>

definition is_digit :: "char \<Rightarrow> bool" where
  "is_digit c = (48 \<le> code c \<and> code c \<le> 57)"

text \<open>\<open>p in s\<close> for two strings.\<close>

fun contains :: "string \<Rightarrow> string \<Rightarrow> bool" where
  "contains [] p = (p = [])"
| "contains (c # cs) p = (prefix p (c # cs) \<or> contains cs p)"

text \<open>\<open>any(phrase in s for phrase in phrases)\<close>\<close>

definition any_in :: "string list \<Rightarrow> string \<Rightarrow> bool" where
  "any_in phrases s = list_ex (contains s) phrases"

section \<open>RequestParser.detect_policies\<close>

definition api_key_phrases :: "string list" where
  "api_key_phrases = [''api key'', ''apikey'', ''authentication'', ''verify api key'']"

definition quota_phrases :: "string list" where
  "quota_phrases = [''quota'', ''rate limit'', ''requests per hour'', ''requests per day'']"

definition spike_phrases :: "string list" where
  "spike_phrases = [''spike arrest'', ''spike'', ''burst'', ''requests per sec'', ''per second'']"

definition javascript_phrases :: "string list" where
  "javascript_phrases = [''javascript'', ''transform'', ''modify'', ''combine'', ''js policy'']"

definition assign_message_phrases :: "string list" where
  "assign_message_phrases = [''assign message'', ''set variable'', ''add header'', ''set header'']"

definition detect_policies :: "string \<Rightarrow> string list" where
  "detect_policies message =
    (let message_lower = lower message in
       (if any_in api_key_phrases message_lower then [''VerifyAPIKey''] else [])
     @ (if contains message_lower ''cors'' then [''CORS''] else [])
     @ (if any_in quota_phrases message_lower then [''Quota''] else [])
     @ (if any_in spike_phrases message_lower then [''SpikeArrest''] else [])
     @ (if any_in javascript_phrases message_lower then [''JavaScript''] else [])
     @ (if any_in assign_message_phrases message_lower then [''AssignMessage''] else []))"

text \<open>The fixed enumeration of policy kinds, in the priority order of the specification.\<close>

definition policy_priority :: "string list" where
  "policy_priority =
    [''VerifyAPIKey'', ''CORS'', ''Quota'', ''SpikeArrest'', ''JavaScript'', ''AssignMessage'']"

section \<open>Regular expressions: the fragment of Python's \<open>re\<close> that the parser uses\<close>

text \<open>
  Every pattern of \<open>common/parsers.py\<close> is built from literal characters, \<open>.\<close>,
  \<open>\s\<close>, \<open>\d\<close>, bracketed classes, concatenation, alternation, \<open>?\<close>, and the
  repetitions \<open>*\<close>, \<open>+\<close>, \<open>*?\<close> applied to a single character matcher, with exactly
  one capturing group. The matcher below is the backtracking semantics of \<open>re\<close> on that
  fragment: it lists every way a pattern can match a prefix of the text, in the order in
  which the backtracking engine tries them, so the first entry is the match \<open>re\<close> reports.
\<close>

datatype citem = CChar char | CRange char char | CSpace

fun citem_match :: "citem \<Rightarrow> char \<Rightarrow> bool" where
  "citem_match (CChar x) c = (c = x)"
| "citem_match (CRange lo hi) c = (code lo \<le> code c \<and> code c \<le> code hi)"
| "citem_match CSpace c = is_space c"

definition cls_match :: "citem list \<Rightarrow> char \<Rightarrow> bool" where
  "cls_match items c = list_ex (\<lambda>i. citem_match i c) items"

text \<open>
  Under \<open>re.IGNORECASE\<close> a class matches a character when it holds a character with the
  same case folding; on this range the characters with the same folding as \<open>c\<close> are
  \<open>c\<close>, \<open>lower_char c\<close> and \<open>upper_char c\<close>.
\<close>

definition cls_match_ic :: "bool \<Rightarrow> citem list \<Rightarrow> char \<Rightarrow> bool" where
  "cls_match_ic ic items c =
     (if ic then cls_match items c \<or> cls_match items (lower_char c) \<or> cls_match items (upper_char c)
      else cls_match items c)"

datatype atom = Lit char | Dot | Space | Digit | Cls "citem list" | NCls "citem list"

text \<open>\<open>atom_match ic a c\<close>: does \<open>a\<close> match the character \<open>c\<close>; \<open>ic\<close> is \<open>re.IGNORECASE\<close>.
  \<open>Dot\<close> is \<open>.\<close> without \<open>re.DOTALL\<close>: anything but a newline.\<close>

fun atom_match :: "bool \<Rightarrow> atom \<Rightarrow> char \<Rightarrow> bool" where
  "atom_match ic (Lit x) c = (if ic then lower_char c = lower_char x else c = x)"
| "atom_match ic Dot c = (code c \<noteq> 10)"
| "atom_match ic Space c = is_space c"
| "atom_match ic Digit c = is_digit c"
| "atom_match ic (Cls items) c = cls_match_ic ic items c"
| "atom_match ic (NCls items) c = (\<not> cls_match_ic ic items c)"

datatype regex =
    Eps
  | Atom atom
  | Seq regex regex
  | Alt regex regex
  | Opt regex
  | Star atom
  | Plus atom
  | LazyStar atom
  | Grp regex

text \<open>A literal string, and the concatenation of a list of patterns.\<close>

definition str :: "string \<Rightarrow> regex" where
  "str s = foldr (\<lambda>c r. Seq (Atom (Lit c)) r) s Eps"

definition seqs :: "regex list \<Rightarrow> regex" where
  "seqs rs = foldr Seq rs Eps"

text \<open>
  \<open>ms ic r s g\<close>: the matches of \<open>r\<close> at the start of \<open>s\<close>, each as the content of
  group 1 after the match (\<open>g\<close> before it) and the text that is left, in priority order:
  a greedy repetition tries the longest run first, a lazy one the shortest, an alternation
  its left branch first, \<open>?\<close> its operand before the empty match.
\<close>

fun ms :: "bool \<Rightarrow> regex \<Rightarrow> string \<Rightarrow> string option \<Rightarrow> (string option \<times> string) list" where
  "ms ic Eps s g = [(g, s)]"
| "ms ic (Atom a) [] g = []"
| "ms ic (Atom a) (c # cs) g = (if atom_match ic a c then [(g, cs)] else [])"
| "ms ic (Seq r1 r2) s g = concat (map (\<lambda>(g', s'). ms ic r2 s' g') (ms ic r1 s g))"
| "ms ic (Alt r1 r2) s g = ms ic r1 s g @ ms ic r2 s g"
| "ms ic (Opt r) s g = ms ic r s g @ [(g, s)]"
| "ms ic (Star a) [] g = [(g, [])]"
| "ms ic (Star a) (c # cs) g =
     (if atom_match ic a c then ms ic (Star a) cs g @ [(g, c # cs)] else [(g, c # cs)])"
| "ms ic (Plus a) [] g = []"
| "ms ic (Plus a) (c # cs) g = (if atom_match ic a c then ms ic (Star a) cs g else [])"
| "ms ic (LazyStar a) [] g = [(g, [])]"
| "ms ic (LazyStar a) (c # cs) g =
     (if atom_match ic a c then (g, c # cs) # ms ic (LazyStar a) cs g else [(g, c # cs)])"
| "ms ic (Grp r) s g =
     map (\<lambda>(g', s'). (Some (take (length s - length s') s), s')) (ms ic r s g)"

text \<open>
  \<open>re.search(pattern, s)\<close>: the first match at the leftmost position that has one.
  The result is \<open>None\<close> when there is no match, and otherwise \<open>match.group(1)\<close>,
  itself \<open>None\<close> when the group took no part in the match.
\<close>

fun re_search :: "bool \<Rightarrow> regex \<Rightarrow> string \<Rightarrow> string option option" where
  "re_search ic r [] = (case ms ic r [] None of [] \<Rightarrow> None | (g, _) # _ \<Rightarrow> Some g)"
| "re_search ic r (c # cs) =
     (case ms ic r (c # cs) None of [] \<Rightarrow> re_search ic r cs | (g, _) # _ \<Rightarrow> Some g)"

text \<open>\<open>str.rstrip(chars)\<close>, \<open>str.strip(chars)\<close> and \<open>str.replace(' ', '-')\<close>\<close>

definition rstrip :: "string \<Rightarrow> string \<Rightarrow> string" where
  "rstrip chars s = rev (dropWhile (\<lambda>c. c \<in> set chars) (rev s))"

definition strip :: "string \<Rightarrow> string \<Rightarrow> string" where
  "strip chars s = rstrip chars (dropWhile (\<lambda>c. c \<in> set chars) s)"

definition replace_space :: "string \<Rightarrow> string" where
  "replace_space s = map (\<lambda>c. if c = CHR '' '' then CHR ''-'' else c) s"

section \<open>RequestParser.extract_proxy_details\<close>

text \<open>The classes \<open>[a-zA-Z0-9\-_]\<close>, \<open>[a-zA-Z0-9\-_/]\<close> and \<open>[a-zA-Z0-9\-_./:]\<close>.\<close>

definition name_cls :: "citem list" where
  "name_cls = [CRange CHR ''a'' CHR ''z'', CRange CHR ''A'' CHR ''Z'', CRange CHR ''0'' CHR ''9'',
     CChar CHR ''-'', CChar CHR ''_'']"

definition path_cls :: "citem list" where
  "path_cls = name_cls @ [CChar CHR ''/'']"

definition url_cls :: "citem list" where
  "url_cls = name_cls @ [CChar CHR ''.'', CChar CHR ''/'', CChar CHR '':'']"

definition name_group :: regex where
  "name_group = Grp (Plus (Cls name_cls))"

definition name_patterns :: "regex list" where
  "name_patterns =
    [ seqs [str ''named'', Plus Space, name_group],
      seqs [str ''called'', Plus Space, name_group],
      seqs [str ''proxy'', Plus Space, name_group],
      seqs [str ''create'', LazyStar Dot, Alt (str ''proxy'') (str ''api''), LazyStar Dot,
            str ''named'', Plus Space, name_group],
      seqs [str ''create'', LazyStar Dot, name_group, LazyStar Dot,
            Alt (str ''proxy'') (str ''api'')],
      seqs [str ''API proxy named'', Plus Space, name_group],
      seqs [str ''Apigee API proxy named'', Plus Space, name_group] ]"

text \<open>\<open>https?://\<close>\<close>

definition scheme :: regex where
  "scheme = seqs [str ''http'', Opt (Atom (Lit CHR ''s'')), str ''://'']"

text \<open>\<open>(https?://[^\s]+)\<close>\<close>

definition url_group :: regex where
  "url_group = Grp (seqs [scheme, Plus (NCls [CSpace])])"

definition url_patterns :: "regex list" where
  "url_patterns =
    [ seqs [str ''target endpoint should be:'', Star Space, url_group],
      seqs [str ''target'', LazyStar Dot, str ''endpoint'', LazyStar Dot,
            Alt (str ''be'') (Alt (str ''is'') (str '':'')), Star Space, url_group],
      seqs [str ''pointing to'', Plus Space, url_group],
      seqs [str ''target'', LazyStar Dot, url_group],
      seqs [str ''backend'', LazyStar Dot, url_group],
      seqs [str ''endpoint'', LazyStar Dot,
            Grp (seqs [scheme,
              Plus (NCls [CSpace, CChar CHR '','', CChar CHR '';'', CChar CHR ''.'', CSpace])])],
      Grp (seqs [scheme, Plus (Cls url_cls),
            Opt (seqs [Atom (Lit CHR ''/''), Star (Cls url_cls)])]) ]"

definition base_path_group :: regex where
  "base_path_group = Grp (Plus (Cls path_cls))"

definition base_path_patterns :: "regex list" where
  "base_path_patterns =
    [ seqs [str ''base path'', Plus Space, base_path_group],
      seqs [str ''basepath'', Plus Space, base_path_group],
      seqs [str ''path'', Plus Space, base_path_group],
      seqs [str ''with base path'', Plus Space, base_path_group] ]"

text \<open>
  \<open>match.group(1)\<close> is \<open>None\<close> when the group took no part in the match, and a method
  call on \<open>None\<close> raises \<open>AttributeError\<close>.
\<close>

datatype py_error = AttributeError

record proxy_details =
  name :: string
  target_url :: string
  base_path :: string

text \<open>The three \<open>for pattern in ...: match = re.search(...); if match: ...; break\<close> loops.\<close>

fun find_name :: "regex list \<Rightarrow> string \<Rightarrow> string \<Rightarrow> py_error + string" where
  "find_name [] message_lower dflt = Inr dflt"
| "find_name (pattern # patterns) message_lower dflt =
     (case re_search False pattern message_lower of
        None \<Rightarrow> find_name patterns message_lower dflt
      | Some None \<Rightarrow> Inl AttributeError
      | Some (Some g) \<Rightarrow> Inr (replace_space g))"

fun find_url :: "regex list \<Rightarrow> string \<Rightarrow> string \<Rightarrow> py_error + string" where
  "find_url [] message dflt = Inr dflt"
| "find_url (pattern # patterns) message dflt =
     (case re_search True pattern message of
        None \<Rightarrow> find_url patterns message dflt
      | Some None \<Rightarrow> Inl AttributeError
      | Some (Some g) \<Rightarrow>
          (let url = rstrip ''.,;'' g in
           if length url > 10 \<and> CHR ''.'' \<in> set url then Inr url
           else find_url patterns message dflt))"

fun find_base_path :: "regex list \<Rightarrow> string \<Rightarrow> string \<Rightarrow> py_error + string" where
  "find_base_path [] message_lower dflt = Inr dflt"
| "find_base_path (pattern # patterns) message_lower dflt =
     (case re_search False pattern message_lower of
        None \<Rightarrow> find_base_path patterns message_lower dflt
      | Some None \<Rightarrow> Inl AttributeError
      | Some (Some g) \<Rightarrow> Inr (''/'' @ strip ''/'' g))"

definition extract_proxy_details :: "string \<Rightarrow> py_error + proxy_details" where
  "extract_proxy_details message =
    (let message_lower = lower message in
     case find_name name_patterns message_lower ''generated-proxy'' of
       Inl e \<Rightarrow> Inl e
     | Inr proxy_name \<Rightarrow>
     (case find_url url_patterns message ''https://mocktarget.apigee.net/json'' of
       Inl e \<Rightarrow> Inl e
     | Inr url \<Rightarrow>
     (case find_base_path base_path_patterns message_lower (''/'' @ proxy_name) of
       Inl e \<Rightarrow> Inl e
     | Inr path \<Rightarrow>
         Inr \<lparr>name = proxy_name, target_url = url, base_path = path\<rparr>)))"

section \<open>What a pattern can match, for reasoning about the matcher\<close>

text \<open>
  \<open>lang ic r\<close> is the set of strings that \<open>r\<close> matches in full, \<open>grp_lang ic r\<close> the set
  of strings that group 1 of \<open>r\<close> can hold after a match, and \<open>sets_group r\<close> says that
  every match of \<open>r\<close> goes through the group.
\<close>

fun lang :: "bool \<Rightarrow> regex \<Rightarrow> string set" where
  "lang ic Eps = {[]}"
| "lang ic (Atom a) = {[c] |c. atom_match ic a c}"
| "lang ic (Seq r1 r2) = {u @ v |u v. u \<in> lang ic r1 \<and> v \<in> lang ic r2}"
| "lang ic (Alt r1 r2) = lang ic r1 \<union> lang ic r2"
| "lang ic (Opt r) = insert [] (lang ic r)"
| "lang ic (Star a) = {w. \<forall>c \<in> set w. atom_match ic a c}"
| "lang ic (Plus a) = {w. w \<noteq> [] \<and> (\<forall>c \<in> set w. atom_match ic a c)}"
| "lang ic (LazyStar a) = {w. \<forall>c \<in> set w. atom_match ic a c}"
| "lang ic (Grp r) = lang ic r"

fun grp_lang :: "bool \<Rightarrow> regex \<Rightarrow> string set" where
  "grp_lang ic (Grp r) = lang ic r"
| "grp_lang ic (Seq r1 r2) = grp_lang ic r1 \<union> grp_lang ic r2"
| "grp_lang ic (Alt r1 r2) = grp_lang ic r1 \<union> grp_lang ic r2"
| "grp_lang ic (Opt r) = grp_lang ic r"
| "grp_lang ic r = {}"

fun sets_group :: "regex \<Rightarrow> bool" where
  "sets_group (Grp r) = True"
| "sets_group (Seq r1 r2) = (sets_group r1 \<or> sets_group r2)"
| "sets_group (Alt r1 r2) = (sets_group r1 \<and> sets_group r2)"
| "sets_group r = False"

section \<open>The specification's notions of a URL\<close>

text \<open>
  \<open>has_scheme u\<close>: \<open>u\<close> begins with \<open>http://\<close> or \<open>https://\<close>, in any letter case.
  \<open>url_host u\<close> is the authority part of such a URL, up to the first \<open>/\<close>, \<open>?\<close> or
  \<open>#\<close>, and \<open>well_formed_url\<close> is the specification's "syntactically well-formed absolute
  URL (scheme + host)": there is a scheme and the host is not empty.
\<close>

definition has_scheme :: "string \<Rightarrow> bool" where
  "has_scheme u = (prefix ''http://'' (lower u) \<or> prefix ''https://'' (lower u))"

definition url_host :: "string \<Rightarrow> string option" where
  "url_host u =
     (if prefix ''https://'' (lower u) then Some (takeWhile (\<lambda>c. c \<notin> set ''/?#'') (drop 8 u))
      else if prefix ''http://'' (lower u) then Some (takeWhile (\<lambda>c. c \<notin> set ''/?#'') (drop 7 u))
      else None)"

definition well_formed_url :: "string \<Rightarrow> bool" where
  "well_formed_url u = (case url_host u of None \<Rightarrow> False | Some h \<Rightarrow> h \<noteq> [])"

section \<open>ApigeeTemplates.generate_proxy_endpoint_xml\<close>

text \<open>
  The literal pieces of the templates are the triple-quoted strings of
  \<open>services/template_generator.py\<close>, cut at the placeholders of the f-strings.
\<close>

text \<open>The text assigned to \<open>fault_rules_xml\<close> when \<open>VerifyAPIKey\<close> is present.\<close>

definition fault_rules_block :: string where
  \<open>fault_rules_block =
     ''  <FaultRules>\<newline>'' @
     ''    <FaultRule name="InvalidAPIKey">\<newline>'' @
     ''      <Step>\<newline>'' @
     ''        <Name>AM-InvalidAPIKey</Name>\<newline>'' @
     ''      </Step>\<newline>'' @
     ''      <Condition>(fault.name Matches "InvalidApiKeyForGivenResource") or (fault.name Matches "InvalidApiKey")</Condition>\<newline>'' @
     ''    </FaultRule>\<newline>'' @
     ''  </FaultRules>\<newline>'' @
     ''  <DefaultFaultRule name="defaultRule">\<newline>'' @
     ''    <Step>\<newline>'' @
     ''      <Name>AM-GenericError</Name>\<newline>'' @
     ''    </Step>\<newline>'' @
     ''  </DefaultFaultRule>''\<close>

definition flows_xml :: string where
  \<open>flows_xml =
     ''  <Flows>\<newline>'' @
     ''    <Flow name="MainFlow">\<newline>'' @
     ''      <Description>Main API flow</Description>\<newline>'' @
     ''      <Request/>\<newline>'' @
     ''      <Response/>\<newline>'' @
     ''      <Condition>proxy.pathsuffix MatchesPath "/**"</Condition>\<newline>'' @
     ''    </Flow>\<newline>'' @
     ''  </Flows>''\<close>

text \<open>The literal pieces of the returned f-string, in order.\<close>

definition endpoint_open :: string where
  \<open>endpoint_open =
     ''<?xml version="1.0" encoding="UTF-8" standalone="yes"?>\<newline>'' @
     ''<ProxyEndpoint name="default">\<newline>'' @
     ''  <Description>''\<close>

definition after_name :: string where
  \<open>after_name =
     '' proxy endpoint</Description>\<newline>''\<close>

definition preflow_request_open :: string where
  \<open>preflow_request_open =
     ''\<newline>'' @
     ''  <PreFlow name="PreFlow">\<newline>'' @
     ''    <Request>\<newline>''\<close>

definition preflow_request_close :: string where
  \<open>preflow_request_close =
     ''\<newline>'' @
     ''    </Request>\<newline>'' @
     ''    <Response>\<newline>''\<close>

definition preflow_response_close :: string where
  \<open>preflow_response_close =
     ''\<newline>'' @
     ''    </Response>\<newline>'' @
     ''  </PreFlow>\<newline>'' @
     ''  <PostFlow name="PostFlow">\<newline>'' @
     ''    <Request/>\<newline>'' @
     ''    <Response>\<newline>''\<close>

definition postflow_response_close :: string where
  \<open>postflow_response_close =
     ''\<newline>'' @
     ''    </Response>\<newline>'' @
     ''  </PostFlow>\<newline>''\<close>

definition after_flows :: string where
  \<open>after_flows =
     ''\<newline>'' @
     ''  <HTTPProxyConnection>\<newline>'' @
     ''    <BasePath>''\<close>

definition endpoint_close :: string where
  \<open>endpoint_close =
     ''</BasePath>\<newline>'' @
     ''    <Properties/>\<newline>'' @
     ''  </HTTPProxyConnection>\<newline>'' @
     ''  <RouteRule name="default">\<newline>'' @
     ''    <TargetEndpoint>default</TargetEndpoint>\<newline>'' @
     ''  </RouteRule>\<newline>'' @
     ''</ProxyEndpoint>''\<close>

text \<open>\<open>sep.join(items)\<close>\<close>

fun join :: "string \<Rightarrow> string list \<Rightarrow> string" where
  "join sep [] = []"
| "join sep [x] = x"
| "join sep (x # y # ys) = x @ sep @ join sep (y # ys)"

text \<open>The f-string appended for one policy: a \<open>Step\<close> element naming it.\<close>

definition step_xml :: "string \<Rightarrow> string" where
  \<open>step_xml policy =
     ''      <Step>\<newline>        <Name>'' @ policy @ ''</Name>\<newline>      </Step>''\<close>

text \<open>The two membership tests of the placement loop.\<close>

definition preflow_request_kinds :: "string list" where
  "preflow_request_kinds = [''VerifyAPIKey'', ''CORS'', ''AssignMessage'', ''SpikeArrest'', ''Quota'']"

definition postflow_response_kinds :: "string list" where
  "postflow_response_kinds = [''JavaScript'']"

text \<open>
  The loop \<open>for policy in policies\<close>, on the lists \<open>preflow_request_steps\<close> and
  \<open>postflow_response_steps\<close>; \<open>preflow_response_steps\<close> is never appended to.
\<close>

fun place_policies :: "string list \<Rightarrow> string list \<times> string list \<Rightarrow> string list \<times> string list" where
  "place_policies [] (preflow_request_steps, postflow_response_steps) =
     (preflow_request_steps, postflow_response_steps)"
| "place_policies (policy # policies) (preflow_request_steps, postflow_response_steps) =
     (if policy \<in> set preflow_request_kinds
      then place_policies policies (preflow_request_steps @ [step_xml policy], postflow_response_steps)
      else if policy \<in> set postflow_response_kinds
      then place_policies policies (preflow_request_steps, postflow_response_steps @ [step_xml policy])
      else place_policies policies (preflow_request_steps, postflow_response_steps))"

definition generate_proxy_endpoint_xml :: "string \<Rightarrow> string \<Rightarrow> string list \<Rightarrow> string \<Rightarrow> string" where
  \<open>generate_proxy_endpoint_xml proxy_name path policies message =
    (let (preflow_request_steps, postflow_response_steps) = place_policies policies ([], []);
         preflow_response_steps = [];
         preflow_req_xml =
           (if preflow_request_steps \<noteq> [] then join ''\<newline>'' preflow_request_steps else '''');
         preflow_resp_xml =
           (if preflow_response_steps \<noteq> [] then join ''\<newline>'' preflow_response_steps else '''');
         postflow_resp_xml =
           (if postflow_response_steps \<noteq> [] then join ''\<newline>'' postflow_response_steps else '''');
         fault_rules_xml = (if ''VerifyAPIKey'' \<in> set policies then fault_rules_block else '''')
     in endpoint_open @ proxy_name @ after_name @ fault_rules_xml @ preflow_request_open
        @ preflow_req_xml @ preflow_request_close @ preflow_resp_xml @ preflow_response_close
        @ postflow_resp_xml @ postflow_response_close @ flows_xml @ after_flows @ path
        @ endpoint_close)\<close>


section \<open>RequestParser.extract_spike_arrest_rate\<close>

definition digits_group :: regex where
  "digits_group = Grp (Plus Digit)"

definition rate_patterns :: "regex list" where
  "rate_patterns =
    [ seqs [digits_group, Star Space, str ''request'', Opt (Atom (Lit CHR ''s'')), Star Space,
            str ''per'', Star Space, str ''sec''],
      seqs [digits_group, Star Space, str ''per'', Star Space, str ''sec''],
      seqs [digits_group, Star Space, str ''per'', Star Space, str ''second''],
      seqs [digits_group, str ''ps''],
      seqs [str ''spike arrest'', LazyStar Dot, digits_group],
      seqs [digits_group, Star Space, str ''req'', LazyStar Dot, str ''sec''] ]"

text \<open>
  The loop over \<open>rate_patterns\<close>. The f-string \<open>f"{rate}ps"\<close> formats a group that took
  no part in the match as \<open>None\<close>.
\<close>

fun find_rate :: "regex list \<Rightarrow> string \<Rightarrow> string" where
  "find_rate [] message_lower = ''10ps''"
| "find_rate (pattern # patterns) message_lower =
     (case re_search False pattern message_lower of
        None \<Rightarrow> find_rate patterns message_lower
      | Some None \<Rightarrow> ''None'' @ ''ps''
      | Some (Some rate) \<Rightarrow> rate @ ''ps'')"

definition extract_spike_arrest_rate :: "string \<Rightarrow> string" where
  "extract_spike_arrest_rate message = (let message_lower = lower message in
     find_rate rate_patterns message_lower)"

text \<open>
  For reasoning about the first pattern, \<open>(\d+)\s*requests?\s*per\s*sec\<close>: what follows
  its group.
\<close>

definition rate_tail :: regex where
  "rate_tail = seqs [Star Space, str ''request'', Opt (Atom (Lit CHR ''s'')), Star Space,
            str ''per'', Star Space, str ''sec'']"

section \<open>ApigeeTemplates.generate_policy_xml\<close>

definition verify_api_key_template :: string where
  \<open>verify_api_key_template =
     ''<?xml version="1.0" encoding="UTF-8" standalone="yes"?>\<newline>'' @
     ''<VerifyAPIKey async="false" continueOnError="false" enabled="true" name="VerifyAPIKey">\<newline>'' @
     ''  <DisplayName>Verify API Key</DisplayName>\<newline>'' @
     ''  <APIKey ref="request.queryparam.apikey"/>\<newline>'' @
     ''</VerifyAPIKey>''\<close>

definition javascript_template :: string where
  \<open>javascript_template =
     ''<?xml version="1.0" encoding="UTF-8" standalone="yes"?>\<newline>'' @
     ''<Javascript async="false" continueOnError="false" enabled="true" name="JavaScript">\<newline>'' @
     ''  <DisplayName>JavaScript Transformation</DisplayName>\<newline>'' @
     ''  <ResourceURL>jsc://transformation.js</ResourceURL>\<newline>'' @
     ''</Javascript>''\<close>

definition assign_message_template :: string where
  \<open>assign_message_template =
     ''<?xml version="1.0" encoding="UTF-8" standalone="yes"?>\<newline>'' @
     ''<AssignMessage continueOnError="false" enabled="true" name="AssignMessage">\<newline>'' @
     ''  <DisplayName>Assign Message</DisplayName>\<newline>'' @
     ''  <Properties/>\<newline>'' @
     ''  <Set>\<newline>'' @
     ''    <Headers>\<newline>'' @
     ''      <Header name="X-Processed-By">Apigee</Header>\<newline>'' @
     ''    </Headers>\<newline>'' @
     ''  </Set>\<newline>'' @
     ''  <AssignVariable>\<newline>'' @
     ''    <Name>request.timestamp</Name>\<newline>'' @
     ''    <Value>{system.timestamp}</Value>\<newline>'' @
     ''  </AssignVariable>\<newline>'' @
     ''  <IgnoreUnresolvedVariables>true</IgnoreUnresolvedVariables>\<newline>'' @
     ''  <AssignTo createNew="false" transport="http" type="request"/>\<newline>'' @
     ''</AssignMessage>''\<close>

definition cors_template :: string where
  \<open>cors_template =
     ''<?xml version="1.0" encoding="UTF-8" standalone="yes"?>\<newline>'' @
     ''<CORS async="false" continueOnError="false" enabled="true" name="CORS">\<newline>'' @
     ''  <DisplayName>CORS Policy</DisplayName>\<newline>'' @
     ''  <AllowOrigins>*</AllowOrigins>\<newline>'' @
     ''  <AllowMethods>GET,POST,PUT,DELETE,OPTIONS</AllowMethods>\<newline>'' @
     ''  <AllowHeaders>Content-Type,Authorization,X-Requested-With</AllowHeaders>\<newline>'' @
     ''  <MaxAge>3628800</MaxAge>\<newline>'' @
     ''  <AllowCredentials>false</AllowCredentials>\<newline>'' @
     ''  <GeneratePreflightResponse>true</GeneratePreflightResponse>\<newline>'' @
     ''</CORS>''\<close>

definition quota_template :: string where
  \<open>quota_template =
     ''<?xml version="1.0" encoding="UTF-8" standalone="yes"?>\<newline>'' @
     ''<Quota async="false" continueOnError="false" enabled="true" name="Quota">\<newline>'' @
     ''  <DisplayName>Quota Policy</DisplayName>\<newline>'' @
     ''  <Allow count="1000"/>\<newline>'' @
     ''  <Interval>1</Interval>\<newline>'' @
     ''  <TimeUnit>hour</TimeUnit>\<newline>'' @
     ''  <Identifier ref="client_id"/>\<newline>'' @
     ''  <Distributed>true</Distributed>\<newline>'' @
     ''  <Synchronous>true</Synchronous>\<newline>'' @
     ''</Quota>''\<close>

text \<open>The SpikeArrest f-string, before and after \<open>{rate}\<close>.\<close>

definition spike_arrest_open :: string where
  \<open>spike_arrest_open =
     ''<?xml version="1.0" encoding="UTF-8" standalone="yes"?>\<newline>'' @
     ''<SpikeArrest async="false" continueOnError="false" enabled="true" name="SpikeArrest">\<newline>'' @
     ''  <DisplayName>Spike Arrest</DisplayName>\<newline>'' @
     ''  <Rate>''\<close>

definition spike_arrest_close :: string where
  \<open>spike_arrest_close =
     ''</Rate>\<newline>'' @
     ''  <UseEffectiveCount>true</UseEffectiveCount>\<newline>'' @
     ''</SpikeArrest>''\<close>

text \<open>The fallback f-string, cut at its four \<open>{policy_name}\<close>.\<close>

definition generic_0 :: string where
  \<open>generic_0 =
     ''<?xml version="1.0" encoding="UTF-8" standalone="yes"?>\<newline>'' @
     ''<''\<close>

definition generic_1 :: string where
  \<open>generic_1 =
     '' name="''\<close>

definition generic_2 :: string where
  \<open>generic_2 =
     ''">\<newline>'' @
     ''  <DisplayName>''\<close>

definition generic_3 :: string where
  \<open>generic_3 =
     ''</DisplayName>\<newline>'' @
     ''</''\<close>

definition generic_4 :: string where
  \<open>generic_4 =
     ''>''\<close>

text \<open>The dictionary \<open>templates\<close>.\<close>

definition templates :: "string \<rightharpoonup> string" where
  "templates = map_of
     [(''VerifyAPIKey'', verify_api_key_template),
      (''JavaScript'', javascript_template),
      (''AssignMessage'', assign_message_template),
      (''CORS'', cors_template),
      (''Quota'', quota_template)]"

definition generate_policy_xml :: "string \<Rightarrow> string \<Rightarrow> string" where
  "generate_policy_xml policy_name message =
     (if policy_name = ''SpikeArrest''
      then (let rate = extract_spike_arrest_rate message
            in spike_arrest_open @ rate @ spike_arrest_close)
      else (case templates policy_name of
              Some template \<Rightarrow> template
            | None \<Rightarrow> generic_0 @ policy_name @ generic_1 @ policy_name @ generic_2
                       @ policy_name @ generic_3 @ policy_name @ generic_4))"

section \<open>ApigeeService.create_proxy_bundle: the policy descriptors\<close>



section \<open>ApigeeService.deploy_to_apigee\<close>

text \<open>
  The process environment \<open>os.environ\<close> is a map from names to values, passed in and
  returned. \<open>truthy\<close> is Python's truth value of an optional string: \<open>None\<close> and the
  empty string are false.
\<close>

type_synonym environ = "string \<rightharpoonup> string"

definition truthy :: "string option \<Rightarrow> bool" where
  "truthy v = (case v of None \<Rightarrow> False | Some s \<Rightarrow> s \<noteq> [])"

record apigee_service =
  base_url :: string
  org :: string
  environment :: string

text \<open>The keys of \<open>config\<close> that the deployment reads; a missing key is not modelled.\<close>

record config =
  proxy_details :: proxy_details
  policies :: "string list"
  original_message :: string

text \<open>
  What the call meets outside the program: \<open>create_proxy_bundle\<close> returns the archive or
  raises (file system), and \<open>requests.post\<close> raises or returns a response with its status
  code and text; \<open>json_error\<close> is the exception of \<open>response.json()\<close>, if it raises.
\<close>

datatype http_result =
    RequestException string
  | Response (status_code: nat) (response_text: string) (json_error: "string option")

record world =
  proxy_bundle :: "string + string"
  http :: http_result

text \<open>
  The two result dictionaries, without their message texts: the success one carries
  \<open>proxy_name\<close>, \<open>organization\<close> and \<open>test_url\<close>, the failure one \<open>str(e)\<close>.
\<close>

datatype deploy_result = Deployed string string string | Failed string

text \<open>\<open>str(n)\<close> for a status code.\<close>

fun str_nat :: "nat \<Rightarrow> string" where
  "str_nat n = (if n < 10 then [char_of (48 + n)]
                else str_nat (n div 10) @ [char_of (48 + n mod 10)])"

text \<open>
  The body of the inner \<open>try\<close>: it reads the environment and raises (\<open>Inl\<close>, with the
  exception's text) or returns the success result.
\<close>

definition deploy_attempt ::
  "apigee_service \<Rightarrow> environ \<Rightarrow> config \<Rightarrow> string \<Rightarrow> world \<Rightarrow> string + deploy_result" where
  "deploy_attempt self env config org' w =
     (case proxy_bundle w of
        Inl e \<Rightarrow> Inl e
      | Inr bundle_content \<Rightarrow>
          (let proxy_name = name (proxy_details config);
               token_header = env ''APIGEE_TOKEN''
           in if \<not> truthy token_header then Inl ''No Apigee access token available''
              else (case http w of
                      RequestException e \<Rightarrow> Inl e
                    | Response status text jerr \<Rightarrow>
                        if status \<ge> 400
                        then Inl (''API error '' @ str_nat status @ '': '' @ text)
                        else (case jerr of
                                Some e \<Rightarrow> Inl e
                              | None \<Rightarrow>
                                  Inr (Deployed proxy_name org'
                                    (''https://'' @ org' @ ''-'' @ environment self @ ''.apigee.net''
                                      @ base_path (proxy_details config)))))))"

text \<open>
  \<open>deploy_to_apigee\<close>: the result and the environment after the call. The assignment
  \<open>os.environ['APIGEE_TOKEN'] = token\<close> stands before the inner \<open>try\<close>: for a token with
  an embedded NUL it raises \<open>ValueError\<close> and leaves the environment as it was, and the
  outer handler returns the failure. The \<open>finally\<close> clause runs on both paths of the inner
  \<open>try\<close>.
\<close>

definition deploy_to_apigee ::
  "apigee_service \<Rightarrow> environ \<Rightarrow> config \<Rightarrow> string option \<Rightarrow> string option \<Rightarrow> world
     \<Rightarrow> deploy_result \<times> environ" where
  "deploy_to_apigee self env config organization token w =
     (let org' = (case organization of
                    Some organization' \<Rightarrow> if organization' \<noteq> [] then organization' else org self
                  | None \<Rightarrow> org self);
          original_token = env ''APIGEE_TOKEN'';
          assigned = (case token of
                        Some t \<Rightarrow>
                          if t \<noteq> []
                          then (if CHR 0x00 \<in> set t then Inl ''embedded null byte''
                                else Inr (env(''APIGEE_TOKEN'' \<mapsto> t)))
                          else Inr env
                      | None \<Rightarrow> Inr env)
      in case assigned of
           Inl e \<Rightarrow> (Failed e, env)
         | Inr env1 \<Rightarrow>
             (let r = deploy_attempt self env1 config org' w;
                  env2 = (case original_token of
                            Some ot \<Rightarrow> if truthy token \<and> ot \<noteq> []
                                       then env1(''APIGEE_TOKEN'' \<mapsto> ot) else env1
                          | None \<Rightarrow> env1)
              in (case r of Inl e \<Rightarrow> Failed e | Inr result \<Rightarrow> result, env2)))"

section \<open>Properties of policy detection\<close>

lemma contains_sublist: "contains s p = sublist p s"
  by (induction s) (auto simp: sublist_Cons_right)

lemma any_in_iff: "any_in ps s = (\<exists>p \<in> set ps. sublist p s)"
  by (simp add: any_in_def list_ex_iff contains_sublist)

lemma lower_append: "lower (a @ b) = lower a @ lower b"
  by (simp add: lower_def)

lemma any_in_append: "any_in ps s \<Longrightarrow> any_in ps (s @ k) \<and> any_in ps (k @ s)"
  unfolding any_in_iff
  by (meson sublist_append)

lemma contains_append: "contains s p \<Longrightarrow> contains (s @ k) p \<and> contains (k @ s) p"
  unfolding contains_sublist by (meson sublist_append)

lemma chain_set:
  "set ((if b1 then [x1] else []) @ (if b2 then [x2] else []) @ (if b3 then [x3] else [])
      @ (if b4 then [x4] else []) @ (if b5 then [x5] else []) @ (if b6 then [x6] else []))
   = {x. (x = x1 \<and> b1) \<or> (x = x2 \<and> b2) \<or> (x = x3 \<and> b3) \<or> (x = x4 \<and> b4)
        \<or> (x = x5 \<and> b5) \<or> (x = x6 \<and> b6)}"
  by auto

lemma chain_subseq:
  "subseq ((if b1 then [x1] else []) @ (if b2 then [x2] else []) @ (if b3 then [x3] else [])
      @ (if b4 then [x4] else []) @ (if b5 then [x5] else []) @ (if b6 then [x6] else []))
     [x1, x2, x3, x4, x5, x6]"
proof -
  have one: "subseq (if b then [x] else [] :: 'a list) [x]" for b and x :: 'a by simp
  have "subseq ((if b1 then [x1] else []) @ (if b2 then [x2] else []) @ (if b3 then [x3] else [])
      @ (if b4 then [x4] else []) @ (if b5 then [x5] else []) @ (if b6 then [x6] else []))
     ([x1] @ [x2] @ [x3] @ [x4] @ [x5] @ [x6])"
    by (intro list_emb_append_mono one)
  then show ?thesis by simp
qed

lemma subseq_distinct: "subseq xs ys \<Longrightarrow> distinct ys \<Longrightarrow> distinct xs"
  by (metis in_set_subseqs subseqs_distinctD)

lemma mem_detect_policies:
  "x \<in> set (detect_policies t) \<longleftrightarrow>
     (x = ''VerifyAPIKey'' \<and> any_in api_key_phrases (lower t))
   \<or> (x = ''CORS'' \<and> contains (lower t) ''cors'')
   \<or> (x = ''Quota'' \<and> any_in quota_phrases (lower t))
   \<or> (x = ''SpikeArrest'' \<and> any_in spike_phrases (lower t))
   \<or> (x = ''JavaScript'' \<and> any_in javascript_phrases (lower t))
   \<or> (x = ''AssignMessage'' \<and> any_in assign_message_phrases (lower t))"
  unfolding detect_policies_def Let_def chain_set by (rule mem_Collect_eq)

lemma detect_subseq: "subseq (detect_policies t) policy_priority"
  unfolding detect_policies_def policy_priority_def Let_def by (rule chain_subseq)

lemma detect_distinct: "distinct (detect_policies t)"
proof -
  have "distinct policy_priority" by (simp add: policy_priority_def)
  with detect_subseq show ?thesis by (rule subseq_distinct)
qed

lemma detect_set:
  "set (detect_policies t) \<subseteq>
     {''VerifyAPIKey'', ''CORS'', ''Quota'', ''SpikeArrest'', ''JavaScript'', ''AssignMessage''}"
  unfolding detect_policies_def Let_def chain_set by (rule subsetI) (elim CollectE disjE conjE, simp_all)

lemma detect_quota_spike:
  assumes "any_in quota_phrases (lower t)" "any_in spike_phrases (lower t)"
  shows "\<exists>xs ys zs. detect_policies t = xs @ ''Quota'' # ys @ ''SpikeArrest'' # zs"
proof -
  define xs where "xs = (if any_in api_key_phrases (lower t) then [''VerifyAPIKey''] else [])
     @ (if contains (lower t) ''cors'' then [''CORS''] else [])"
  define zs where "zs = (if any_in javascript_phrases (lower t) then [''JavaScript''] else [])
     @ (if any_in assign_message_phrases (lower t) then [''AssignMessage''] else [])"
  have "detect_policies t = xs @ ''Quota'' # [] @ ''SpikeArrest'' # zs"
    unfolding detect_policies_def Let_def xs_def zs_def if_P[OF assms(1)] if_P[OF assms(2)]
    by (simp only: append_assoc append_Cons append_Nil)
  then show ?thesis by blast
qed

text \<open>
  C3. For every text, \<open>detect_policies\<close> returns a list without duplicates, whose elements
  are among the six policy kinds and appear in the fixed priority order (the result is a
  subsequence of \<open>policy_priority\<close>); when the lowercased text holds a quota phrase and a
  spike phrase, both \<open>Quota\<close> and \<open>SpikeArrest\<close> are in the list, \<open>Quota\<close> first.
\<close>

theorem detect_policies_priority:
  "distinct (detect_policies t)
   \<and> set (detect_policies t) \<subseteq>
       {''VerifyAPIKey'', ''CORS'', ''Quota'', ''SpikeArrest'', ''JavaScript'', ''AssignMessage''}
   \<and> subseq (detect_policies t) policy_priority
   \<and> (any_in quota_phrases (lower t) \<and> any_in spike_phrases (lower t) \<longrightarrow>
        (\<exists>xs ys zs. detect_policies t = xs @ ''Quota'' # ys @ ''SpikeArrest'' # zs))"
proof (intro conjI impI)
  show "distinct (detect_policies t)" by (rule detect_distinct)
  show "set (detect_policies t) \<subseteq>
       {''VerifyAPIKey'', ''CORS'', ''Quota'', ''SpikeArrest'', ''JavaScript'', ''AssignMessage''}"
    by (rule detect_set)
  show "subseq (detect_policies t) policy_priority" by (rule detect_subseq)
  assume h: "any_in quota_phrases (lower t) \<and> any_in spike_phrases (lower t)"
  show "\<exists>xs ys zs. detect_policies t = xs @ ''Quota'' # ys @ ''SpikeArrest'' # zs"
    by (rule detect_quota_spike[OF conjunct1[OF h] conjunct2[OF h]])
qed

theorem detect_policies_priority_witness:
  "any_in quota_phrases (lower ''Quota of 5 and a spike limit'')
   \<and> any_in spike_phrases (lower ''Quota of 5 and a spike limit'')
   \<and> detect_policies ''Quota of 5 and a spike limit'' = [''Quota'', ''SpikeArrest'']
   \<and> (\<exists>xs ys zs. detect_policies ''Quota of 5 and a spike limit''
          = xs @ ''Quota'' # ys @ ''SpikeArrest'' # zs)"
proof -
  have h: "any_in quota_phrases (lower ''Quota of 5 and a spike limit'')
     \<and> any_in spike_phrases (lower ''Quota of 5 and a spike limit'')"
    by code_simp
  have e: "detect_policies ''Quota of 5 and a spike limit'' = [''Quota'', ''SpikeArrest'']"
    by code_simp
  note t = detect_policies_priority[of "''Quota of 5 and a spike limit''"]
  have x: "\<exists>xs ys zs. detect_policies ''Quota of 5 and a spike limit''
          = xs @ ''Quota'' # ys @ ''SpikeArrest'' # zs"
    by (rule mp[OF t[THEN conjunct2, THEN conjunct2, THEN conjunct2] h])
  show ?thesis
    by (intro conjI) (rule conjunct1[OF h], rule conjunct2[OF h], rule e, rule x)
qed

text \<open>
  C9, as amended. Putting a string \<open>k\<close> (any string, so any keyword phrase) at the end or
  at the start of a text never removes a detected policy kind.
\<close>

theorem detect_policies_extend:
  "set (detect_policies t) \<subseteq> set (detect_policies (t @ k))
   \<and> set (detect_policies t) \<subseteq> set (detect_policies (k @ t))"
proof -
  have *: "x \<in> set (detect_policies (t @ k)) \<and> x \<in> set (detect_policies (k @ t))"
    if "x \<in> set (detect_policies t)" for x
    using that any_in_append[of _ "lower t" "lower k"] contains_append[of "lower t" _ "lower k"]
    unfolding mem_detect_policies lower_append
    by (elim disjE conjE) simp_all
  show ?thesis
  proof (intro conjI subsetI)
    fix x assume "x \<in> set (detect_policies t)"
    from *[OF this] show "x \<in> set (detect_policies (t @ k))" by (rule conjunct1)
  next
    fix x assume "x \<in> set (detect_policies t)"
    from *[OF this] show "x \<in> set (detect_policies (k @ t))" by (rule conjunct2)
  qed
qed

theorem detect_policies_extend_witness:
  "detect_policies ''use an api key'' = [''VerifyAPIKey'']
   \<and> detect_policies (''use an api key'' @ '' and cors'') = [''VerifyAPIKey'', ''CORS'']
   \<and> set (detect_policies ''use an api key'')
       \<subseteq> set (detect_policies (''use an api key'' @ '' and cors''))"
proof -
  have a: "detect_policies ''use an api key'' = [''VerifyAPIKey'']" by code_simp
  have b: "detect_policies (''use an api key'' @ '' and cors'') = [''VerifyAPIKey'', ''CORS'']"
    by code_simp
  note t = detect_policies_extend[of "''use an api key''" "'' and cors''"]
  show ?thesis
    by (intro conjI) (rule a, rule b, rule t[THEN conjunct1])
qed

text \<open>
  Adding a keyword inside the text can remove a kind: \<open>apikey\<close> is detected as
  \<open>VerifyAPIKey\<close>, and with \<open>cors\<close> put between \<open>api\<close> and \<open>key\<close> it no longer is.
\<close>

theorem detect_policies_insert_counterexample:
  "''VerifyAPIKey'' \<in> set (detect_policies (''api'' @ ''key''))
   \<and> ''VerifyAPIKey'' \<notin> set (detect_policies (''api'' @ ''cors'' @ ''key''))"
  by code_simp

section \<open>The matcher is sound for \<open>lang\<close>\<close>

lemma ms_sound:
  "(g, rest) \<in> set (ms ic r s cap) \<Longrightarrow> \<exists>w \<in> lang ic r. s = w @ rest"
proof (induction ic r s cap arbitrary: g rest rule: ms.induct)
  case (4 ic r1 r2 s g0)
  from "4.prems" obtain g' s' where a: "(g', s') \<in> set (ms ic r1 s g0)"
    and b: "(g, rest) \<in> set (ms ic r2 s' g')"
    by auto
  from "4.IH"(1)[OF a] obtain u where u: "u \<in> lang ic r1" "s = u @ s'" by blast
  from "4.IH"(2)[OF a refl b] obtain v where v: "v \<in> lang ic r2" "s' = v @ rest" by blast
  from u v show ?case by auto
next
  case (8 ic a c cs g0)
  show ?case
  proof (cases "atom_match ic a c")
    case True
    with "8.prems" consider "(g, rest) \<in> set (ms ic (Star a) cs g0)" | "rest = c # cs"
      by auto
    then show ?thesis
    proof cases
      case 1
      from "8.IH"[OF True 1] obtain w where "w \<in> lang ic (Star a)" "cs = w @ rest" by blast
      with True have "c # w \<in> lang ic (Star a)" "c # cs = (c # w) @ rest" by auto
      then show ?thesis by blast
    next
      case 2
      then show ?thesis by auto
    qed
  next
    case False
    with "8.prems" show ?thesis by auto
  qed
next
  case (10 ic a c cs g0)
  show ?case
  proof (cases "atom_match ic a c")
    case True
    with "10.prems" have 1: "(g, rest) \<in> set (ms ic (Star a) cs g0)" by auto
    from "10.IH"[OF True 1] obtain w where "w \<in> lang ic (Star a)" "cs = w @ rest" by blast
    with True have "c # w \<in> lang ic (Plus a)" "c # cs = (c # w) @ rest" by auto
    then show ?thesis by blast
  next
    case False
    with "10.prems" show ?thesis by auto
  qed
next
  case (12 ic a c cs g0)
  show ?case
  proof (cases "atom_match ic a c")
    case True
    with "12.prems" consider "(g, rest) \<in> set (ms ic (LazyStar a) cs g0)" | "rest = c # cs"
      by auto
    then show ?thesis
    proof cases
      case 1
      from "12.IH"[OF True 1] obtain w where "w \<in> lang ic (LazyStar a)" "cs = w @ rest" by blast
      with True have "c # w \<in> lang ic (LazyStar a)" "c # cs = (c # w) @ rest" by auto
      then show ?thesis by blast
    next
      case 2
      then show ?thesis by auto
    qed
  next
    case False
    with "12.prems" show ?thesis by auto
  qed
qed (fastforce split: if_splits)+

lemma ms_keeps:
  "(g, rest) \<in> set (ms ic r s cap) \<Longrightarrow> cap \<noteq> None \<Longrightarrow> g \<noteq> None"
  by (induction ic r s cap arbitrary: g rest rule: ms.induct) (fastforce split: if_splits)+

lemma ms_sets:
  "(g, rest) \<in> set (ms ic r s cap) \<Longrightarrow> sets_group r \<Longrightarrow> g \<noteq> None"
proof (induction ic r s cap arbitrary: g rest rule: ms.induct)
  case (4 ic r1 r2 s g0)
  from "4.prems" obtain g' s' where a: "(g', s') \<in> set (ms ic r1 s g0)"
    and b: "(g, rest) \<in> set (ms ic r2 s' g')"
    by auto
  show ?case
  proof (cases "sets_group r1")
    case True
    from "4.IH"(1)[OF a True] have "g' \<noteq> None" .
    with ms_keeps[OF b] show ?thesis by blast
  next
    case False
    with "4.prems" have "sets_group r2" by simp
    from "4.IH"(2)[OF a refl b this] show ?thesis .
  qed
qed (auto split: if_splits)

lemma ms_capture:
  "(g, rest) \<in> set (ms ic r s cap) \<Longrightarrow>
     g = cap \<or> (\<exists>w \<in> grp_lang ic r. g = Some w \<and> sublist w s)"
proof (induction ic r s cap arbitrary: g rest rule: ms.induct)
  case (4 ic r1 r2 s g0)
  from "4.prems" obtain g' s' where a: "(g', s') \<in> set (ms ic r1 s g0)"
    and b: "(g, rest) \<in> set (ms ic r2 s' g')"
    by auto
  from ms_sound[OF a] obtain u where u: "s = u @ s'" by blast
  from "4.IH"(1)[OF a] have 1: "g' = g0 \<or> (\<exists>w \<in> grp_lang ic r1. g' = Some w \<and> sublist w s)" .
  from "4.IH"(2)[OF a refl b]
  have 2: "g = g' \<or> (\<exists>w \<in> grp_lang ic r2. g = Some w \<and> sublist w s')" .
  have "sublist w s" if "sublist w s'" for w
    using that u by (simp add: sublist_append)
  with 1 2 show ?case by auto
next
  case (13 ic r s g0)
  from "13.prems" obtain g' where a: "(g', rest) \<in> set (ms ic r s g0)"
    and g: "g = Some (take (length s - length rest) s)"
    by auto
  from ms_sound[OF a] obtain w where w: "w \<in> lang ic r" "s = w @ rest" by blast
  then have "take (length s - length rest) s = w" by simp
  with g w show ?case by auto
qed (fastforce split: if_splits)+

lemma ms_first_capture:
  assumes "ms ic r s None = (Some w, rest) # xs"
  shows "w \<in> grp_lang ic r \<and> sublist w s"
proof -
  from assms have "(Some w, rest) \<in> set (ms ic r s None)" by simp
  from ms_capture[OF this] show ?thesis by auto
qed

lemma re_search_capture:
  "re_search ic r s = Some (Some w) \<Longrightarrow> w \<in> grp_lang ic r \<and> sublist w s"
proof (induction s)
  case Nil
  then show ?case
    by (auto split: list.splits dest: ms_first_capture)
next
  case (Cons c cs)
  show ?case
  proof (cases "ms ic r (c # cs) None")
    case Nil
    with Cons.prems have "re_search ic r cs = Some (Some w)" by simp
    from Cons.IH[OF this] show ?thesis by (auto simp: sublist_Cons_right)
  next
    case (Cons x xs)
    obtain g rest where x: "x = (g, rest)" by (cases x)
    with Cons Cons.prems have "g = Some w" by simp
    with Cons x have "ms ic r (c # cs) None = (Some w, rest) # xs" by simp
    then show ?thesis by (rule ms_first_capture)
  qed
qed

lemma re_search_sets:
  "sets_group r \<Longrightarrow> re_search ic r s \<noteq> Some None"
proof (induction s)
  case Nil
  show ?case
  proof (cases "ms ic r [] None")
    case Nil then show ?thesis by simp
  next
    case (Cons x xs)
    obtain g rest where x: "x = (g, rest)" by (cases x)
    with Cons have "(g, rest) \<in> set (ms ic r [] None)" by simp
    from ms_sets[OF this Nil.prems] Cons x show ?thesis by simp
  qed
next
  case (Cons c cs)
  show ?case
  proof (cases "ms ic r (c # cs) None")
    case Nil with Cons.IH Cons.prems show ?thesis by simp
  next
    case (Cons x xs)
    obtain g rest where x: "x = (g, rest)" by (cases x)
    with Cons have "(g, rest) \<in> set (ms ic r (c # cs) None)" by simp
    from ms_sets[OF this Cons.prems] Cons x show ?thesis by simp
  qed
qed

section \<open>Characters and literal patterns\<close>

lemma code_char_of: "n < 256 \<Longrightarrow> code (char_of n) = n"
  by (simp add: code_def)

lemma code_less: "code c < 256"
  by (simp add: code_def)

lemma not_upper_lower_char: "\<not> is_upper (lower_char c)"
proof (cases "is_upper c")
  case True
  then have "code c + 32 < 256" by (auto simp: is_upper_def)
  then have "code (char_of (code c + 32)) = code c + 32" by (rule code_char_of)
  with True show ?thesis by (auto simp: lower_char_def is_upper_def)
next
  case False
  then show ?thesis by (simp add: lower_char_def)
qed

lemma not_upper_lower: "c \<in> set (lower s) \<Longrightarrow> \<not> is_upper c"
  by (auto simp: lower_def not_upper_lower_char)

lemma grp_lang_str [simp]: "grp_lang ic (str x) = {}"
  by (induction x) (simp_all add: str_def)

lemma sets_group_str [simp]: "sets_group (str x) = False"
  by (induction x) (simp_all add: str_def)

section \<open>Properties of \<open>extract_proxy_details\<close>\<close>

lemma name_patterns_group:
  "p \<in> set name_patterns \<Longrightarrow> sets_group p \<and> grp_lang ic p = lang ic (Plus (Cls name_cls))"
  unfolding name_patterns_def seqs_def name_group_def by auto

lemma base_path_patterns_group:
  "p \<in> set base_path_patterns \<Longrightarrow> sets_group p \<and> grp_lang ic p = lang ic (Plus (Cls path_cls))"
  unfolding base_path_patterns_def seqs_def base_path_group_def by auto

lemma find_name_result:
  assumes "\<forall>p \<in> set ps. sets_group p"
  shows "\<exists>n. find_name ps s d = Inr n \<and>
     (n = d \<or> (\<exists>p \<in> set ps. \<exists>w \<in> grp_lang False p. sublist w s \<and> n = replace_space w))"
  using assms
proof (induction ps)
  case Nil
  then show ?case by simp
next
  case (Cons p ps)
  show ?case
  proof (cases "re_search False p s")
    case None
    with Cons show ?thesis by auto
  next
    case (Some g)
    from Cons.prems have "sets_group p" by simp
    from re_search_sets[OF this, of False s] Some obtain w where g: "g = Some w" by (cases g) auto
    with Some have "re_search False p s = Some (Some w)" by simp
    from re_search_capture[OF this] Some g show ?thesis by auto
  qed
qed

lemma find_base_path_result:
  assumes "\<forall>p \<in> set ps. sets_group p"
  shows "\<exists>n. find_base_path ps s d = Inr n \<and>
     (n = d \<or> (\<exists>p \<in> set ps. \<exists>w \<in> grp_lang False p. sublist w s \<and> n = ''/'' @ strip ''/'' w))"
  using assms
proof (induction ps)
  case Nil
  then show ?case by simp
next
  case (Cons p ps)
  show ?case
  proof (cases "re_search False p s")
    case None
    with Cons show ?thesis by auto
  next
    case (Some g)
    from Cons.prems have "sets_group p" by simp
    from re_search_sets[OF this, of False s] Some obtain w where g: "g = Some w" by (cases g) auto
    with Some have "re_search False p s = Some (Some w)" by simp
    from re_search_capture[OF this] Some g show ?thesis by auto
  qed
qed

lemma find_url_result:
  assumes "\<forall>p \<in> set ps. sets_group p"
  shows "\<exists>n. find_url ps s d = Inr n \<and>
     (n = d \<or> (\<exists>p \<in> set ps. \<exists>w \<in> grp_lang True p. sublist w s \<and> n = rstrip ''.,;'' w
         \<and> length n > 10 \<and> CHR ''.'' \<in> set n))"
  using assms
proof (induction ps)
  case Nil
  then show ?case by simp
next
  case (Cons p ps)
  show ?case
  proof (cases "re_search True p s")
    case None
    with Cons show ?thesis by auto
  next
    case (Some g)
    from Cons.prems have "sets_group p" by simp
    from re_search_sets[OF this, of True s] Some obtain w where g: "g = Some w" by (cases g) auto
    with Some have "re_search True p s = Some (Some w)" by simp
    from re_search_capture[OF this] Some g Cons show ?thesis by (auto simp: Let_def)
  qed
qed

lemma set_rstrip: "set (rstrip cs s) \<subseteq> set s"
  unfolding rstrip_def using set_dropWhileD by fastforce

lemma set_strip: "set (strip cs s) \<subseteq> set s"
  unfolding strip_def using set_rstrip set_dropWhileD by fast

lemma set_replace_space: "c \<in> set (replace_space s) \<Longrightarrow> c \<in> set s \<or> c = CHR ''-''"
  by (auto simp: replace_space_def split: if_splits)

lemma url_patterns_group:
  "p \<in> set url_patterns \<Longrightarrow>
     sets_group p \<and> grp_lang True p \<subseteq> {u @ v |u v. u \<in> lang True scheme}"
  unfolding url_patterns_def seqs_def url_group_def by (auto; blast)

lemma lang_str_ic: "lang True (str x) = {u. lower u = lower x}"
proof (induction x)
  case Nil
  then show ?case by (simp add: str_def lower_def)
next
  case (Cons c x)
  have s: "str (c # x) = Seq (Atom (Lit c)) (str x)" by (simp add: str_def)
  show ?case unfolding s
  proof (intro set_eqI iffI)
    fix w assume "w \<in> lang True (Seq (Atom (Lit c)) (str x))"
    with Cons show "w \<in> {u. lower u = lower (c # x)}" by (auto simp: lower_def)
  next
    fix w assume "w \<in> {u. lower u = lower (c # x)}"
    then obtain z zs where w: "w = z # zs" and z: "lower_char z = lower_char c"
      and zs: "lower zs = lower x"
      by (auto simp: lower_def map_eq_Cons_conv)
    from zs Cons have "zs \<in> lang True (str x)" by simp
    moreover from z have "[z] \<in> lang True (Atom (Lit c))" by simp
    moreover have "w = [z] @ zs" using w by simp
    ultimately show "w \<in> lang True (Seq (Atom (Lit c)) (str x))"
      unfolding lang.simps by blast
  qed
qed

lemma lower_char_s: "lower_char CHR ''s'' = CHR ''s''"
  by (simp add: lower_char_def is_upper_def code_def)

lemma lang_scheme:
  assumes "u \<in> lang True scheme"
  shows "lower u = ''http://'' \<or> lower u = ''https://''"
proof -
  from assms obtain a b c where u: "u = a @ b @ c" and a: "lower a = lower ''http''"
    and b: "b = [] \<or> (\<exists>x. b = [x] \<and> lower_char x = lower_char CHR ''s'')"
    and c: "lower c = lower ''://''"
    unfolding scheme_def seqs_def by (auto simp: lang_str_ic)
  have la: "lower ''http'' = ''http''" and lc: "lower ''://'' = ''://''" by code_simp+
  from b have "lower b = [] \<or> lower b = ''s''" by (auto simp: lower_def lower_char_s)
  with u a c la lc show ?thesis by (auto simp: lower_append)
qed

lemma rstrip_prefix: "prefix (rstrip cs s) s"
proof -
  have "rev s = takeWhile (\<lambda>c. c \<in> set cs) (rev s) @ dropWhile (\<lambda>c. c \<in> set cs) (rev s)"
    by simp
  then have "s = rev (dropWhile (\<lambda>c. c \<in> set cs) (rev s)) @ rev (takeWhile (\<lambda>c. c \<in> set cs) (rev s))"
    by (metis rev_append rev_rev_ident)
  then show ?thesis unfolding rstrip_def by (metis prefixI)
qed

lemma rstrip_last: "rstrip cs s \<noteq> [] \<Longrightarrow> last (rstrip cs s) \<notin> set cs"
  unfolding rstrip_def using hd_dropWhile[of "\<lambda>c. c \<in> set cs" "rev s"]
  by (simp add: last_rev)

lemma prefix_of_same:
  assumes "u @ v = n @ t" and "length u \<le> length n"
  shows "prefix u n"
proof -
  from assms(1) have "take (length u) (u @ v) = take (length u) (n @ t)" by simp
  with assms(2) have "u = take (length u) n" by simp
  then show ?thesis by (metis take_is_prefix)
qed

lemma accepted_has_scheme:
  assumes w: "w = u @ v" and u: "lower u = ''http://'' \<or> lower u = ''https://''"
    and n: "n = rstrip ''.,;'' w" and len: "length n > 10"
  shows "has_scheme n"
proof -
  from u have "length (lower u) \<le> 8" by auto
  then have lu: "length u \<le> 8" by (simp add: lower_def)
  from rstrip_prefix[of "''.,;''" w] n obtain t where t: "w = n @ t" by (auto simp: prefix_def)
  with w have "u @ v = n @ t" by simp
  moreover from lu len have "length u \<le> length n" by simp
  ultimately have "prefix u n" by (rule prefix_of_same)
  then have "prefix (lower u) (lower n)" by (auto simp: prefix_def lower_append)
  with u show ?thesis by (auto simp: has_scheme_def)
qed

lemma extract_parts:
  "\<exists>n u b. extract_proxy_details m = Inr \<lparr>name = n, target_url = u, base_path = b\<rparr>
     \<and> find_name name_patterns (lower m) ''generated-proxy'' = Inr n
     \<and> find_url url_patterns m ''https://mocktarget.apigee.net/json'' = Inr u
     \<and> find_base_path base_path_patterns (lower m) (''/'' @ n) = Inr b"
proof -
  have 1: "\<forall>p \<in> set name_patterns. sets_group p" using name_patterns_group by blast
  have 2: "\<forall>p \<in> set url_patterns. sets_group p" using url_patterns_group by blast
  have 3: "\<forall>p \<in> set base_path_patterns. sets_group p" using base_path_patterns_group by blast
  from find_name_result[OF 1] obtain n where
    n: "find_name name_patterns (lower m) ''generated-proxy'' = Inr n" by blast
  from find_url_result[OF 2] obtain u where
    u: "find_url url_patterns m ''https://mocktarget.apigee.net/json'' = Inr u" by blast
  from find_base_path_result[OF 3] obtain b where
    b: "find_base_path base_path_patterns (lower m) (''/'' @ n) = Inr b" by blast
  from n u b show ?thesis by (simp add: extract_proxy_details_def Let_def)
qed

lemma name_not_upper:
  assumes "find_name name_patterns (lower m) ''generated-proxy'' = Inr n" and "c \<in> set n"
  shows "\<not> is_upper c"
proof -
  have 1: "\<forall>p \<in> set name_patterns. sets_group p" using name_patterns_group by blast
  from find_name_result[OF 1, of "lower m" "''generated-proxy''"] assms(1)
  consider "n = ''generated-proxy''" | w where "sublist w (lower m)" "n = replace_space w"
    by auto
  then show ?thesis
  proof cases
    case 1
    have "\<forall>c \<in> set ''generated-proxy''. \<not> is_upper c" by code_simp
    with 1 assms(2) show ?thesis by blast
  next
    case 2
    from assms(2) 2 have "c \<in> set w \<or> c = CHR ''-''" using set_replace_space by blast
    moreover have "\<not> is_upper CHR ''-''" by code_simp
    moreover have "set w \<subseteq> set (lower m)" using 2 by (simp add: set_mono_sublist)
    ultimately show ?thesis using not_upper_lower by blast
  qed
qed

lemma base_path_not_upper:
  assumes "find_name name_patterns (lower m) ''generated-proxy'' = Inr n"
    and "find_base_path base_path_patterns (lower m) (''/'' @ n) = Inr b" and "c \<in> set b"
  shows "\<not> is_upper c"
proof -
  have 3: "\<forall>p \<in> set base_path_patterns. sets_group p" using base_path_patterns_group by blast
  have sl: "\<not> is_upper CHR ''/''" by code_simp
  from find_base_path_result[OF 3, of "lower m" "''/'' @ n"] assms(2)
  consider "b = ''/'' @ n" | w where "sublist w (lower m)" "b = ''/'' @ strip ''/'' w"
    by auto
  then show ?thesis
  proof cases
    case 1
    with assms(3) have "c = CHR ''/'' \<or> c \<in> set n" by auto
    with sl name_not_upper[OF assms(1)] show ?thesis by blast
  next
    case 2
    with assms(3) have "c = CHR ''/'' \<or> c \<in> set (strip ''/'' w)" by auto
    moreover have "set (strip ''/'' w) \<subseteq> set w" by (rule set_strip)
    moreover have "set w \<subseteq> set (lower m)" using 2 by (simp add: set_mono_sublist)
    ultimately show ?thesis using sl not_upper_lower by blast
  qed
qed

text \<open>
  C10. For every text, \<open>extract_proxy_details\<close> returns a record (it never raises) whose
  \<open>name\<close> and \<open>base_path\<close> hold no uppercase letter: both are cut out of the lowercased
  message, or are the lowercase defaults. The witness is the input \<open>named Booking-API\<close>,
  whose name comes out as \<open>booking-api\<close>.
\<close>

theorem extract_proxy_details_lowercase:
  "\<exists>d. extract_proxy_details m = Inr d
     \<and> (\<forall>c \<in> set (name d). \<not> is_upper c) \<and> (\<forall>c \<in> set (base_path d). \<not> is_upper c)"
proof -
  from extract_parts[of m] obtain n u b where
    e: "extract_proxy_details m = Inr \<lparr>name = n, target_url = u, base_path = b\<rparr>"
    and n: "find_name name_patterns (lower m) ''generated-proxy'' = Inr n"
    and b: "find_base_path base_path_patterns (lower m) (''/'' @ n) = Inr b"
    by blast
  from name_not_upper[OF n] base_path_not_upper[OF n b] e show ?thesis by simp
qed

theorem extract_proxy_details_lowercase_witness:
  "extract_proxy_details ''named Booking-API'' =
     Inr \<lparr>name = ''booking-api'', target_url = ''https://mocktarget.apigee.net/json'',
          base_path = ''/booking-api''\<rparr>
   \<and> list_all (\<lambda>c. \<not> is_upper c) ''booking-api''
   \<and> list_all (\<lambda>c. \<not> is_upper c) ''/booking-api''"
proof -
  have e: "extract_proxy_details ''named Booking-API'' =
     Inr \<lparr>name = ''booking-api'', target_url = ''https://mocktarget.apigee.net/json'',
          base_path = ''/booking-api''\<rparr>"
    by code_simp
  from extract_proxy_details_lowercase[of "''named Booking-API''"] e
  have "(\<forall>c \<in> set ''booking-api''. \<not> is_upper c) \<and> (\<forall>c \<in> set ''/booking-api''. \<not> is_upper c)"
    by simp
  then have "list_all (\<lambda>c. \<not> is_upper c) ''booking-api''
      \<and> list_all (\<lambda>c. \<not> is_upper c) ''/booking-api''"
    unfolding list_all_iff .
  with e show ?thesis by (rule conjI)
qed

text \<open>
  What the length-and-dot guard does ensure of the target URL: it is the default, or a
  piece of the text that begins with \<open>http://\<close> or \<open>https://\<close> (in any letter case),
  is longer than 10 characters, holds a \<open>.\<close> and does not end in \<open>.\<close>, \<open>,\<close> or
  \<open>;\<close>. It does not look at the host.
\<close>

lemma target_url_shape:
  "\<exists>d. extract_proxy_details m = Inr d
     \<and> (target_url d = ''https://mocktarget.apigee.net/json''
        \<or> (has_scheme (target_url d) \<and> length (target_url d) > 10
            \<and> CHR ''.'' \<in> set (target_url d) \<and> last (target_url d) \<notin> set ''.,;''
            \<and> sublist (target_url d) m))"
proof -
  from extract_parts[of m] obtain n u b where
    e: "extract_proxy_details m = Inr \<lparr>name = n, target_url = u, base_path = b\<rparr>"
    and u: "find_url url_patterns m ''https://mocktarget.apigee.net/json'' = Inr u"
    by blast
  have 2: "\<forall>p \<in> set url_patterns. sets_group p" using url_patterns_group by blast
  from find_url_result[OF 2, of m "''https://mocktarget.apigee.net/json''"] u
  consider "u = ''https://mocktarget.apigee.net/json''"
    | p w where "p \<in> set url_patterns" "w \<in> grp_lang True p" "sublist w m"
        "u = rstrip ''.,;'' w" "length u > 10" "CHR ''.'' \<in> set u"
    by auto
  then show ?thesis
  proof cases
    case 1
    with e show ?thesis by simp
  next
    case 2
    from url_patterns_group[OF 2(1)] 2(2) obtain x y where
      w: "w = x @ y" and x: "x \<in> lang True scheme" by blast
    from accepted_has_scheme[OF w lang_scheme[OF x] 2(4) 2(5)] have hs: "has_scheme u" .
    from 2(5) have "u \<noteq> []" by auto
    with 2(4) rstrip_last[of "''.,;''" w] have l: "last u \<notin> set ''.,;''" by simp
    from rstrip_prefix[of "''.,;''" w] 2(4) have "sublist u w" by (simp add: prefix_imp_sublist)
    from this 2(3) have "sublist u m" by (rule sublist_order.order.trans)
    with e hs l 2(5) 2(6) show ?thesis by simp
  qed
qed

text \<open>
  C1 fails on the code: the text \<open>https:///aaa.bbb\<close> has a scheme and no host. It is
  the only candidate, it is longer than 10 characters and holds a \<open>.\<close>, so the guard
  that is meant to keep complete URLs only lets it through, and it is returned as the
  target URL in place of the default.
\<close>

theorem extract_proxy_details_hostless_url:
  "extract_proxy_details ''https:///aaa.bbb'' =
     Inr \<lparr>name = ''generated-proxy'', target_url = ''https:///aaa.bbb'',
          base_path = ''/generated-proxy''\<rparr>
   \<and> has_scheme ''https:///aaa.bbb''
   \<and> url_host ''https:///aaa.bbb'' = Some []
   \<and> \<not> well_formed_url ''https:///aaa.bbb''"
  by code_simp

text \<open>
  C2 fails on the code: when the captured path is only slashes, stripping leaves nothing
  and the base path is \<open>/\<close>, which ends in a slash.
\<close>

theorem extract_proxy_details_root_base_path:
  "extract_proxy_details ''proxy orders with base path /'' =
     Inr \<lparr>name = ''orders'', target_url = ''https://mocktarget.apigee.net/json'',
          base_path = ''/''\<rparr>"
  by code_simp

text \<open>
  C8. The scenario of the specification: the booking-api request yields the name
  \<open>booking-api\<close>, the base path \<open>/booking\<close>, the target URL without the sentence's full
  stop, and exactly the policy list \<open>[VerifyAPIKey]\<close>.
\<close>

theorem booking_api_scenario:
  "extract_proxy_details ''Create an Apigee API proxy named booking-api with base path /booking pointing to https://backend.example.com/api. Add a VerifyAPIKey policy to all requests.'' =
     Inr \<lparr>name = ''booking-api'', target_url = ''https://backend.example.com/api'',
          base_path = ''/booking''\<rparr>
   \<and> detect_policies ''Create an Apigee API proxy named booking-api with base path /booking pointing to https://backend.example.com/api. Add a VerifyAPIKey policy to all requests.'' =
     [''VerifyAPIKey'']"
  by code_simp

section \<open>Properties of the endpoint descriptor and of the policy files\<close>























lemma fault_rules_block_text:
  \<open>fault_rules_block =
     ''  <FaultRules>\<newline>'' @
     ''    <FaultRule name="InvalidAPIKey">\<newline>'' @
     ''      <Step>\<newline>'' @
     ''        <Name>AM-InvalidAPIKey</Name>\<newline>'' @
     ''      </Step>\<newline>'' @
     ''      <Condition>(fault.name Matches "InvalidApiKeyForGivenResource") or (fault.name Matches "InvalidApiKey")</Condition>\<newline>'' @
     ''    </FaultRule>\<newline>'' @
     ''  </FaultRules>\<newline>'' @
     ''  <DefaultFaultRule name="defaultRule">\<newline>'' @
     ''    <Step>\<newline>'' @
     ''      <Name>AM-GenericError</Name>\<newline>'' @
     ''    </Step>\<newline>'' @
     ''  </DefaultFaultRule>''\<close>
  by (simp add: fault_rules_block_def)

section \<open>The policy files of the bundle\<close>













text \<open>
  Without the condition on the name and the base path the text \<open><FaultRules>\<close> can
  come from them.
\<close>

lemma fault_rules_text_from_name:
  "contains (generate_proxy_endpoint_xml ''<FaultRules>'' ''/p'' [] '''') ''<FaultRules>''"
  by code_simp




section \<open>Properties of the spike-arrest rate\<close>

lemma rate_patterns_group:
  "p \<in> set rate_patterns \<Longrightarrow> sets_group p \<and> grp_lang ic p = lang ic (Plus Digit)"
  unfolding rate_patterns_def seqs_def digits_group_def by auto

lemma find_rate_result:
  assumes "\<forall>p \<in> set ps. sets_group p \<and> grp_lang False p = lang False (Plus Digit)"
  shows "find_rate ps s = ''10ps''
     \<or> (\<exists>w. w \<noteq> [] \<and> list_all is_digit w \<and> sublist w s \<and> find_rate ps s = w @ ''ps'')"
  using assms
proof (induction ps)
  case Nil
  then show ?case by simp
next
  case (Cons p ps)
  show ?case
  proof (cases "re_search False p s")
    case None
    with Cons show ?thesis by auto
  next
    case (Some g)
    from Cons.prems have sg: "sets_group p" and gl: "grp_lang False p = lang False (Plus Digit)"
      by simp_all
    from re_search_sets[OF sg, of False s] Some obtain w where g: "g = Some w" by (cases g) auto
    with Some have r: "re_search False p s = Some (Some w)" by simp
    from re_search_capture[OF r] gl have "w \<noteq> [] \<and> list_all is_digit w \<and> sublist w s"
      by (auto simp: list_all_iff)
    with r show ?thesis by auto
  qed
qed

lemma is_digit_lower_char: "is_digit (lower_char c) = is_digit c"
proof (cases "is_upper c")
  case True
  then have "code c + 32 < 256" by (auto simp: is_upper_def)
  then have "code (char_of (code c + 32)) = code c + 32" by (rule code_char_of)
  with True show ?thesis by (auto simp: lower_char_def is_upper_def is_digit_def)
next
  case False
  then show ?thesis by (simp add: lower_char_def)
qed

lemma lower_digits: "list_all is_digit n \<Longrightarrow> lower n = n"
  by (induction n) (auto simp: lower_def lower_char_def is_digit_def is_upper_def)

lemma rate_shape:
  "extract_spike_arrest_rate t = ''10ps''
     \<or> (\<exists>w. w \<noteq> [] \<and> list_all is_digit w \<and> sublist w (lower t)
           \<and> extract_spike_arrest_rate t = w @ ''ps'')"
proof -
  have a: "\<forall>p \<in> set rate_patterns. sets_group p \<and> grp_lang False p = lang False (Plus Digit)"
    using rate_patterns_group by blast
  from find_rate_result[OF a, of "lower t"] show ?thesis
    unfolding extract_spike_arrest_rate_def Let_def .
qed

lemma rate_no_digit:
  assumes "list_all (\<lambda>c. \<not> is_digit c) t"
  shows "extract_spike_arrest_rate t = ''10ps''"
proof (rule ccontr)
  assume "extract_spike_arrest_rate t \<noteq> ''10ps''"
  with rate_shape[of t] obtain w where w: "w \<noteq> []" "list_all is_digit w" "sublist w (lower t)"
    by blast
  from w(1,2) have "hd w \<in> set w" "is_digit (hd w)" by (auto simp: list_all_iff)
  with w(3) have "hd w \<in> set (lower t)" by (meson set_mono_sublist subsetD)
  then obtain c where "c \<in> set t" "hd w = lower_char c" by (auto simp: lower_def)
  with \<open>is_digit (hd w)\<close> have "c \<in> set t" "is_digit c" by (simp_all add: is_digit_lower_char)
  with assms show False by (auto simp: list_all_iff)
qed

text \<open>A successful search found a string of the pattern's language inside the text.\<close>

lemma re_search_sound:
  "re_search ic r s = Some g \<Longrightarrow> \<exists>w \<in> lang ic r. sublist w s"
proof (induction s)
  case Nil
  then obtain g' rest xs where "ms ic r [] None = (g', rest) # xs"
    by (auto split: list.splits)
  then have "(g', rest) \<in> set (ms ic r [] None)" by simp
  from ms_sound[OF this] show ?case by auto
next
  case (Cons c cs)
  show ?case
  proof (cases "ms ic r (c # cs) None")
    case Nil
    with Cons.prems have "re_search ic r cs = Some g" by simp
    from Cons.IH[OF this] show ?thesis by (auto simp: sublist_Cons_right)
  next
    case (Cons x xs)
    obtain g' rest where "x = (g', rest)" by (cases x)
    with Cons have "(g', rest) \<in> set (ms ic r (c # cs) None)" by simp
    from ms_sound[OF this] obtain w where w: "w \<in> lang ic r" "c # cs = w @ rest" by blast
    from w(2) have "sublist w (c # cs)" by (metis prefixI prefix_imp_sublist)
    with w(1) show ?thesis by blast
  qed
qed

lemma find_rate_default:
  "\<forall>r \<in> set ps. \<forall>w \<in> lang False r. \<not> sublist w s \<Longrightarrow> find_rate ps s = ''10ps''"
proof (induction ps)
  case Nil
  then show ?case by simp
next
  case (Cons r ps)
  have "re_search False r s = None"
  proof (cases "re_search False r s")
    case None then show ?thesis .
  next
    case (Some g)
    from re_search_sound[OF Some] Cons.prems show ?thesis by auto
  qed
  with Cons show ?case by simp
qed

lemma rate_default:
  "\<forall>r \<in> set rate_patterns. \<forall>w \<in> lang False r. \<not> sublist w (lower t)
     \<Longrightarrow> extract_spike_arrest_rate t = ''10ps''"
  unfolding extract_spike_arrest_rate_def Let_def by (rule find_rate_default)

text \<open>The search passes over a stretch of text in which no match begins.\<close>

lemma re_search_skip:
  assumes "\<And>u. u \<noteq> [] \<Longrightarrow> suffix u p \<Longrightarrow> ms ic r (u @ s) None = []"
  shows "re_search ic r (p @ s) = re_search ic r s"
  using assms
proof (induction p)
  case Nil
  then show ?case by simp
next
  case (Cons c cs)
  have "ms ic r ((c # cs) @ s) None = []" by (rule Cons.prems) simp_all
  moreover have "re_search ic r (cs @ s) = re_search ic r s"
  proof (rule Cons.IH)
    fix u :: string assume "u \<noteq> []" "suffix u cs"
    then show "ms ic r (u @ s) None = []" by (intro Cons.prems) (simp_all add: suffix_ConsI)
  qed
  ultimately show ?case by simp
qed

lemma lang_str_False: "lang False (str x) = {x}"
  by (induction x) (auto simp: str_def)

lemma rate_pattern_0: "rate_patterns ! 0 = Seq digits_group rate_tail"
  by (simp add: rate_patterns_def rate_tail_def seqs_def)

lemma not_digit_space: "is_space c \<Longrightarrow> \<not> is_digit c"
  by (auto simp: is_space_def is_digit_def)

lemma rate_tail_lang:
  assumes "v \<in> lang False rate_tail"
  shows "(\<forall>c \<in> set v. \<not> is_digit c) \<and> sublist ''request'' v"
proof -
  from assms obtain a b c d where v: "v = a @ ''request'' @ b @ c @ ''per'' @ d @ ''sec''"
    and a: "\<forall>x \<in> set a. is_space x" and b: "b = [] \<or> b = ''s''"
    and c: "\<forall>x \<in> set c. is_space x" and d: "\<forall>x \<in> set d. is_space x"
    unfolding rate_tail_def seqs_def by (auto simp: lang_str_False)
  have l: "\<forall>x \<in> set (''request'' @ ''s'' @ ''per'' @ ''sec''). \<not> is_digit x"
    unfolding list_all_iff[symmetric] by code_simp
  have "\<forall>x \<in> set v. \<not> is_digit x"
  proof
    fix x assume "x \<in> set v"
    with v b have "x \<in> set a \<or> x \<in> set c \<or> x \<in> set d
        \<or> x \<in> set (''request'' @ ''s'' @ ''per'' @ ''sec'')"
      by auto
    with a c d l show "\<not> is_digit x" by (auto simp: not_digit_space simp del: set_append)
  qed
  moreover have "sublist ''request'' v" unfolding v by (rule sublist_appendI)
  ultimately show ?thesis by simp
qed

lemma rate_0_lang:
  assumes "w \<in> lang False (rate_patterns ! 0)"
  shows "\<exists>ds v. w = ds @ v \<and> ds \<noteq> [] \<and> (\<forall>c \<in> set ds. is_digit c)
     \<and> (\<forall>c \<in> set v. \<not> is_digit c) \<and> sublist ''request'' v"
proof -
  from assms obtain ds v where "w = ds @ v" "ds \<noteq> []" "\<forall>c \<in> set ds. is_digit c"
    "v \<in> lang False rate_tail"
    unfolding rate_pattern_0 digits_group_def by auto
  with rate_tail_lang[of v] show ?thesis by blast
qed

text \<open>No match of the first pattern begins inside \<open>p\<close> when none lies inside \<open>p\<close>,
  \<open>p\<close> does not end in a digit and a digit follows.\<close>

lemma no_early_match:
  assumes u: "u \<noteq> []" "suffix u p"
    and l: "\<not> is_digit (last p)"
    and n: "\<forall>w \<in> lang False (rate_patterns ! 0). \<not> sublist w p"
    and s: "s \<noteq> []" "is_digit (hd s)"
  shows "ms False (rate_patterns ! 0) (u @ s) None = []"
proof (rule ccontr)
  assume "ms False (rate_patterns ! 0) (u @ s) None \<noteq> []"
  then obtain g rest where "(g, rest) \<in> set (ms False (rate_patterns ! 0) (u @ s) None)"
    by (cases "ms False (rate_patterns ! 0) (u @ s) None") auto
  from ms_sound[OF this] obtain w where w: "w \<in> lang False (rate_patterns ! 0)"
    and e: "u @ s = w @ rest"
    by blast
  from rate_0_lang[OF w] obtain ds v where dv: "w = ds @ v" and ds: "\<forall>c \<in> set ds. is_digit c"
    and v: "\<forall>c \<in> set v. \<not> is_digit c"
    by blast
  from u have lu: "last u = last p" by (auto simp: suffix_def)
  from u(2) have up: "sublist u p" by (rule suffix_imp_sublist)
  from e obtain x where d: "(u = w @ x \<and> x @ s = rest) \<or> (u @ x = w \<and> s = x @ rest)"
    unfolding append_eq_append_conv2 by blast
  show False
  proof (cases "\<exists>y. u = w @ y")
    case True
    then have "sublist w u" by (metis prefixI prefix_imp_sublist)
    from this up have "sublist w p" by (rule sublist_order.order.trans)
    with n w show False by blast
  next
    case False
    with d have x: "u @ x = w" "s = x @ rest" by blast+
    with False have "x \<noteq> []" by auto
    with x(2) s have hx: "is_digit (hd x)" "hd x \<in> set x" by auto
    from x(1) dv have "u @ x = ds @ v" by simp
    then obtain y where y: "(u = ds @ y \<and> y @ x = v) \<or> (u @ y = ds \<and> x = y @ v)"
      unfolding append_eq_append_conv2 by blast
    then show False
    proof
      assume "u = ds @ y \<and> y @ x = v"
      with hx(2) have "hd x \<in> set v" by auto
      with v hx(1) show False by blast
    next
      assume "u @ y = ds \<and> x = y @ v"
      with u(1) have "last u \<in> set ds" by auto
      with ds lu l show False by simp
    qed
  qed
qed

lemma no_request_no_match:
  assumes "\<not> contains p ''request''"
  shows "\<forall>w \<in> lang False (rate_patterns ! 0). \<not> sublist w p"
proof (intro ballI notI)
  fix w assume w: "w \<in> lang False (rate_patterns ! 0)" and s: "sublist w p"
  from rate_0_lang[OF w] obtain ds v where "w = ds @ v" "sublist ''request'' v" by blast
  then have "sublist ''request'' w" by (simp add: sublist_append)
  from this s have "sublist ''request'' p" by (rule sublist_order.order.trans)
  with assms show False by (simp add: contains_sublist)
qed

text \<open>At a run of digits followed by \<open> requests per sec\<close> the first pattern matches, and its
  first match takes the whole run.\<close>

lemma star_digit_first:
  assumes "\<forall>c \<in> set n. is_digit c" "s = [] \<or> \<not> is_digit (hd s)"
  shows "\<exists>xs. ms False (Star Digit) (n @ s) g = (g, s) # xs"
  using assms
proof (induction n)
  case Nil
  then show ?case by (cases s) auto
next
  case (Cons c n)
  then obtain xs where "ms False (Star Digit) (n @ s) g = (g, s) # xs" by auto
  with Cons.prems show ?case by simp
qed

lemma rate_tail_match:
  "ms False rate_tail ('' requests per sec'' @ q) g = [(g, q)]"
  by (simp add: rate_tail_def seqs_def str_def is_space_def code_def)

lemma digits_group_first:
  assumes "n \<noteq> []" "\<forall>c \<in> set n. is_digit c" "s = [] \<or> \<not> is_digit (hd s)"
  shows "\<exists>xs. ms False digits_group (n @ s) None = (Some n, s) # xs"
proof -
  from assms obtain c cs where n: "n = c # cs" and c: "is_digit c" and cs: "\<forall>c \<in> set cs. is_digit c"
    by (cases n) auto
  from star_digit_first[OF cs assms(3), of None]
  obtain xs where xs: "ms False (Star Digit) (cs @ s) None = (None, s) # xs"
    by auto
  show ?thesis unfolding digits_group_def n using c xs by simp
qed

lemma seq_first:
  "ms ic r1 s g = (g1, s1) # xs \<Longrightarrow> ms ic r2 s1 g1 = (g2, s2) # ys
     \<Longrightarrow> \<exists>zs. ms ic (Seq r1 r2) s g = (g2, s2) # zs"
  by simp

lemma rate_0_match:
  assumes "n \<noteq> []" "\<forall>c \<in> set n. is_digit c"
  shows "\<exists>xs. ms False (rate_patterns ! 0) (n @ '' requests per sec'' @ q) None = (Some n, q) # xs"
proof -
  have "'' requests per sec'' @ q = [] \<or> \<not> is_digit (hd ('' requests per sec'' @ q))"
    by (simp add: is_digit_def code_def)
  from digits_group_first[OF assms this]
  obtain xs where a: "ms False digits_group (n @ '' requests per sec'' @ q) None
      = (Some n, '' requests per sec'' @ q) # xs"
    by blast
  have b: "ms False rate_tail ('' requests per sec'' @ q) (Some n) = (Some n, q) # []"
    by (rule rate_tail_match)
  from seq_first[OF a b] show ?thesis unfolding rate_pattern_0 .
qed

lemma find_rate_first:
  "re_search False r s = Some (Some w) \<Longrightarrow> find_rate (r # rs) s = w @ ''ps''"
  by simp

lemma rate_requests_per_sec:
  assumes n: "n \<noteq> []" "list_all is_digit n"
    and l: "p = [] \<or> \<not> is_digit (last p)"
    and m: "\<forall>w \<in> lang False (rate_patterns ! 0). \<not> sublist w (lower p)"
  shows "extract_spike_arrest_rate (p @ n @ '' requests per sec'' @ q) = n @ ''ps''"
proof -
  let ?s = "n @ '' requests per sec'' @ lower q"
  have ll: "lower '' requests per sec'' = '' requests per sec''" by code_simp
  have lw: "lower (p @ n @ '' requests per sec'' @ q) = lower p @ ?s"
    unfolding lower_append ll lower_digits[OF n(2)] ..
  from n have hs: "?s \<noteq> []" "is_digit (hd ?s)" by (auto simp: list_all_iff)
  have sk: "ms False (rate_patterns ! 0) (u @ ?s) None = []" if u: "u \<noteq> []" "suffix u (lower p)" for u
  proof -
    from u have pn: "p \<noteq> []" by (auto simp: lower_def)
    with l have "\<not> is_digit (last p)" by simp
    with pn have "\<not> is_digit (last (lower p))" by (simp add: lower_def last_map is_digit_lower_char)
    from no_early_match[OF u this m hs] show ?thesis .
  qed
  have "re_search False (rate_patterns ! 0) (lower p @ ?s) = re_search False (rate_patterns ! 0) ?s"
    by (rule re_search_skip) (rule sk)
  also have "\<dots> = Some (Some n)"
  proof -
    from n obtain xs where x: "ms False (rate_patterns ! 0) ?s None = (Some n, lower q) # xs"
      using rate_0_match[of n "lower q"] by (auto simp: list_all_iff)
    from n(1) obtain c cs where "n = c # cs" by (cases n) auto
    with x show ?thesis by simp
  qed
  finally have r: "re_search False (rate_patterns ! 0) (lower p @ ?s) = Some (Some n)" .
  obtain rs where rp: "rate_patterns = Seq digits_group rate_tail # rs"
    by (simp add: rate_patterns_def rate_tail_def seqs_def)
  from r have "re_search False (Seq digits_group rate_tail) (lower p @ ?s) = Some (Some n)"
    unfolding rate_pattern_0 .
  then have "find_rate rate_patterns (lower p @ ?s) = n @ ''ps''"
    unfolding rp by (rule find_rate_first)
  then show ?thesis unfolding extract_spike_arrest_rate_def Let_def lw .
qed

lemma contains_lower:
  assumes "contains t k" "lower k = k"
  shows "contains (lower t) k"
proof -
  from assms(1) have "sublist (lower k) (lower t)"
    unfolding contains_sublist lower_def by (rule map_mono_sublist)
  with assms(2) show ?thesis by (simp add: contains_sublist)
qed

lemma spike_detected:
  assumes "contains t ''spike arrest''"
  shows "''SpikeArrest'' \<in> set (detect_policies t)"
proof -
  have "lower ''spike arrest'' = ''spike arrest''" by code_simp
  from contains_lower[OF assms this] have "any_in spike_phrases (lower t)"
    by (simp add: any_in_def spike_phrases_def)
  then show ?thesis unfolding mem_detect_policies by simp
qed

lemma spike_descriptor_text:
  \<open>generate_policy_xml ''SpikeArrest'' t =
     ''<?xml version="1.0" encoding="UTF-8" standalone="yes"?>\<newline>'' @
     ''<SpikeArrest async="false" continueOnError="false" enabled="true" name="SpikeArrest">\<newline>'' @
     ''  <DisplayName>Spike Arrest</DisplayName>\<newline>'' @
     ''  <Rate>'' @ extract_spike_arrest_rate t @ ''</Rate>\<newline>'' @
     ''  <UseEffectiveCount>true</UseEffectiveCount>\<newline>'' @
     ''</SpikeArrest>''\<close>
  by (simp add: generate_policy_xml_def spike_arrest_open_def spike_arrest_close_def)
text \<open>
  C7, as amended. For every text \<open>t\<close>: the SpikeArrest descriptor is the text below, with
  \<open>extract_spike_arrest_rate t\<close>, computed from the text handed to the renderer, between
  \<open><Rate>\<close> and \<open></Rate>\<close>. The rate is \<open>10ps\<close> or a run of digits of the lower-cased
  text followed by \<open>ps\<close>; it is \<open>10ps\<close> when nothing in the text is matched by one of the
  six patterns, in particular when the text has no digit. A text containing
  \<open>spike arrest\<close> is detected as \<open>SpikeArrest\<close>. When \<open>t\<close> is \<open>p\<close>, a run of digits \<open>n\<close>,
  \<open> requests per sec\<close> and \<open>q\<close>, where \<open>p\<close> does not end in a digit and no match of the
  first pattern lies inside \<open>p\<close> (as when \<open>p\<close> does not contain \<open>request\<close>), the rate is
  \<open>n\<close> followed by \<open>ps\<close>: \<open>4ps\<close> for \<open>4 requests per sec\<close>.
\<close>

theorem spike_arrest_rate_rendered:
  \<open>generate_policy_xml ''SpikeArrest'' t =
     ''<?xml version="1.0" encoding="UTF-8" standalone="yes"?>\<newline>'' @
     ''<SpikeArrest async="false" continueOnError="false" enabled="true" name="SpikeArrest">\<newline>'' @
     ''  <DisplayName>Spike Arrest</DisplayName>\<newline>'' @
     ''  <Rate>'' @ extract_spike_arrest_rate t @ ''</Rate>\<newline>'' @
     ''  <UseEffectiveCount>true</UseEffectiveCount>\<newline>'' @
     ''</SpikeArrest>''
   \<and> (extract_spike_arrest_rate t = ''10ps''
       \<or> (\<exists>w. w \<noteq> [] \<and> list_all is_digit w \<and> sublist w (lower t)
             \<and> extract_spike_arrest_rate t = w @ ''ps''))
   \<and> ((\<forall>r \<in> set rate_patterns. \<forall>w \<in> lang False r. \<not> sublist w (lower t))
        \<longrightarrow> extract_spike_arrest_rate t = ''10ps'')
   \<and> (list_all (\<lambda>c. \<not> is_digit c) t \<longrightarrow> extract_spike_arrest_rate t = ''10ps'')
   \<and> (contains t ''spike arrest'' \<longrightarrow> ''SpikeArrest'' \<in> set (detect_policies t))
   \<and> (t = p @ n @ '' requests per sec'' @ q \<and> n \<noteq> [] \<and> list_all is_digit n
        \<and> (p = [] \<or> \<not> is_digit (last p))
        \<and> (\<forall>w \<in> lang False (rate_patterns ! 0). \<not> sublist w (lower p))
      \<longrightarrow> extract_spike_arrest_rate t = n @ ''ps'')
   \<and> (t = p @ n @ '' requests per sec'' @ q \<and> n \<noteq> [] \<and> list_all is_digit n
        \<and> (p = [] \<or> \<not> is_digit (last p))
        \<and> \<not> contains (lower p) ''request''
      \<longrightarrow> extract_spike_arrest_rate t = n @ ''ps'')\<close>
proof (intro conjI impI)
  show \<open>generate_policy_xml ''SpikeArrest'' t =
     ''<?xml version="1.0" encoding="UTF-8" standalone="yes"?>\<newline>'' @
     ''<SpikeArrest async="false" continueOnError="false" enabled="true" name="SpikeArrest">\<newline>'' @
     ''  <DisplayName>Spike Arrest</DisplayName>\<newline>'' @
     ''  <Rate>'' @ extract_spike_arrest_rate t @ ''</Rate>\<newline>'' @
     ''  <UseEffectiveCount>true</UseEffectiveCount>\<newline>'' @
     ''</SpikeArrest>''\<close>
    by (rule spike_descriptor_text)
  show "extract_spike_arrest_rate t = ''10ps''
       \<or> (\<exists>w. w \<noteq> [] \<and> list_all is_digit w \<and> sublist w (lower t)
             \<and> extract_spike_arrest_rate t = w @ ''ps'')"
    by (rule rate_shape)
next
  assume "\<forall>r \<in> set rate_patterns. \<forall>w \<in> lang False r. \<not> sublist w (lower t)"
  then show "extract_spike_arrest_rate t = ''10ps''" by (rule rate_default)
next
  assume "list_all (\<lambda>c. \<not> is_digit c) t"
  then show "extract_spike_arrest_rate t = ''10ps''" by (rule rate_no_digit)
next
  assume "contains t ''spike arrest''"
  then show "''SpikeArrest'' \<in> set (detect_policies t)" by (rule spike_detected)
next
  assume h: "t = p @ n @ '' requests per sec'' @ q \<and> n \<noteq> [] \<and> list_all is_digit n
        \<and> (p = [] \<or> \<not> is_digit (last p))
        \<and> (\<forall>w \<in> lang False (rate_patterns ! 0). \<not> sublist w (lower p))"
  then have t: "t = p @ n @ '' requests per sec'' @ q" and n: "n \<noteq> []" "list_all is_digit n"
    and l: "p = [] \<or> \<not> is_digit (last p)"
    and m: "\<forall>w \<in> lang False (rate_patterns ! 0). \<not> sublist w (lower p)"
    by simp_all
  from rate_requests_per_sec[OF n l m, of q] show "extract_spike_arrest_rate t = n @ ''ps''"
    unfolding t .
next
  assume h: "t = p @ n @ '' requests per sec'' @ q \<and> n \<noteq> [] \<and> list_all is_digit n
        \<and> (p = [] \<or> \<not> is_digit (last p))
        \<and> \<not> contains (lower p) ''request''"
  then have t: "t = p @ n @ '' requests per sec'' @ q" and n: "n \<noteq> []" "list_all is_digit n"
    and l: "p = [] \<or> \<not> is_digit (last p)"
    and c: "\<not> contains (lower p) ''request''"
    by simp_all
  from rate_requests_per_sec[OF n l no_request_no_match[OF c], of q]
  show "extract_spike_arrest_rate t = n @ ''ps''"
    unfolding t .
qed

theorem spike_arrest_rate_rendered_witness:
  \<open>extract_spike_arrest_rate ''orders-v2 with spike arrest of 4 requests per sec'' = ''4ps''
   \<and> ''SpikeArrest'' \<in> set (detect_policies ''orders-v2 with spike arrest of 4 requests per sec'')
   \<and> generate_policy_xml ''SpikeArrest'' ''orders-v2 with spike arrest of 4 requests per sec'' =
       ''<?xml version="1.0" encoding="UTF-8" standalone="yes"?>\<newline>'' @
       ''<SpikeArrest async="false" continueOnError="false" enabled="true" name="SpikeArrest">\<newline>'' @
       ''  <DisplayName>Spike Arrest</DisplayName>\<newline>'' @
       ''  <Rate>4ps</Rate>\<newline>'' @
       ''  <UseEffectiveCount>true</UseEffectiveCount>\<newline>'' @
       ''</SpikeArrest>''
   \<and> extract_spike_arrest_rate ''limit the bursts'' = ''10ps''\<close>
proof -
  let ?t = "''orders-v2 with spike arrest of 4 requests per sec''"
  note th = spike_arrest_rate_rendered[of ?t "''orders-v2 with spike arrest of ''" "''4''" "[]"]
  note th2 = spike_arrest_rate_rendered[of "''limit the bursts''"]
  have h: "?t = ''orders-v2 with spike arrest of '' @ ''4'' @ '' requests per sec'' @ []
      \<and> ''4'' \<noteq> [] \<and> list_all is_digit ''4''
      \<and> (''orders-v2 with spike arrest of '' = []
          \<or> \<not> is_digit (last ''orders-v2 with spike arrest of ''))
      \<and> \<not> contains (lower ''orders-v2 with spike arrest of '') ''request''"
    by code_simp
  have c: "contains ?t ''spike arrest''" by code_simp
  have d: "list_all (\<lambda>c. \<not> is_digit c) ''limit the bursts''" by code_simp
  from th[THEN conjunct2, THEN conjunct2, THEN conjunct2, THEN conjunct2, THEN conjunct2,
      THEN conjunct2] h
  have r: "extract_spike_arrest_rate ?t = ''4'' @ ''ps''" by (rule mp)
  from th[THEN conjunct2, THEN conjunct2, THEN conjunct2, THEN conjunct2, THEN conjunct1] c
  have s: "''SpikeArrest'' \<in> set (detect_policies ?t)" by (rule mp)
  from th[THEN conjunct1] r
  have g: \<open>generate_policy_xml ''SpikeArrest'' ?t =
       ''<?xml version="1.0" encoding="UTF-8" standalone="yes"?>\<newline>'' @
       ''<SpikeArrest async="false" continueOnError="false" enabled="true" name="SpikeArrest">\<newline>'' @
       ''  <DisplayName>Spike Arrest</DisplayName>\<newline>'' @
       ''  <Rate>4ps</Rate>\<newline>'' @
       ''  <UseEffectiveCount>true</UseEffectiveCount>\<newline>'' @
       ''</SpikeArrest>''\<close>
    by simp
  from th2[THEN conjunct2, THEN conjunct2, THEN conjunct2, THEN conjunct1] d
  have e: "extract_spike_arrest_rate ''limit the bursts'' = ''10ps''" by (rule mp)
  from r have r': "extract_spike_arrest_rate ?t = ''4ps''" by simp
  from r' s g e show ?thesis by (intro conjI)
qed

text \<open>
  C7 as stated fails: a text can contain \<open>4 requests per sec\<close> as the tail of a longer
  number, and the search reports the leftmost match, which takes the whole number.
\<close>

theorem spike_arrest_rate_leftmost_counterexample:
  "contains ''14 requests per sec with spike arrest'' ''4 requests per sec''
   \<and> contains ''14 requests per sec with spike arrest'' ''spike arrest''
   \<and> extract_spike_arrest_rate ''14 requests per sec with spike arrest'' = ''14ps''"
  by code_simp

section \<open>The credential in the environment across a deployment\<close>

text \<open>
  The environment after the call, on every path: the token argument stays in
  \<open>APIGEE_TOKEN\<close> exactly when it is non-empty, can be stored (no NUL) and the variable
  was unset or empty before.
\<close>

lemma deploy_environment_after:
  "snd (deploy_to_apigee self env config organization token w) =
     (case token of
        None \<Rightarrow> env
      | Some t \<Rightarrow> if t \<noteq> [] \<and> CHR 0x00 \<notin> set t \<and> \<not> truthy (env ''APIGEE_TOKEN'')
                then env(''APIGEE_TOKEN'' \<mapsto> t) else env)"
  by (auto simp: deploy_to_apigee_def Let_def truthy_def split: option.splits)

lemma deploy_nul_token:
  "deploy_to_apigee self env config organization (Some [CHR ''a'', CHR 0x00]) w
     = (Failed ''embedded null byte'', env)"
  by (simp add: deploy_to_apigee_def Let_def)

lemma deploy_restores_when_set:
  "env ''APIGEE_TOKEN'' = Some ot \<Longrightarrow> ot \<noteq> [] \<Longrightarrow>
     snd (deploy_to_apigee self env config organization token w) = env"
  by (auto simp: deploy_environment_after truthy_def split: option.splits)

lemma deploy_success_path:
  "fst (deploy_to_apigee \<lparr>base_url = ''https://apigee.googleapis.com/v1'', org = ''my-org'', environment = ''test''\<rparr>
          Map.empty
          \<lparr>proxy_details = \<lparr>name = ''orders'', target_url = ''https://mocktarget.apigee.net/json'', base_path = ''/orders''\<rparr>,
            policies = [], original_message = ''proxy orders''\<rparr>
          None (Some ''tok'')
          \<lparr>proxy_bundle = Inr ''PK'', http = Response 200 ''{}'' None\<rparr>)
     = Deployed ''orders'' ''my-org'' ''https://my-org-test.apigee.net/orders''"
  by (simp add: deploy_to_apigee_def deploy_attempt_def Let_def truthy_def)

lemma deploy_failure_path:
  "fst (deploy_to_apigee \<lparr>base_url = ''https://apigee.googleapis.com/v1'', org = ''my-org'', environment = ''test''\<rparr>
          Map.empty
          \<lparr>proxy_details = \<lparr>name = ''orders'', target_url = ''https://mocktarget.apigee.net/json'', base_path = ''/orders''\<rparr>,
            policies = [], original_message = ''proxy orders''\<rparr>
          None (Some ''tok'')
          \<lparr>proxy_bundle = Inr ''PK'', http = Response 404 ''nope'' None\<rparr>)
     = Failed ''API error 404: nope''"
  by code_simp

text \<open>
  C4 fails on the code: called with the token \<open>tok\<close> in an environment where
  \<open>APIGEE_TOKEN\<close> is not set, \<open>deploy_to_apigee\<close> returns, on the success and on the failure
  path alike (whatever the bundle step and the HTTP call do), with \<open>APIGEE_TOKEN\<close> set to
  \<open>tok\<close>, not unset as it was before the call.
\<close>

theorem deploy_to_apigee_leaves_token:
  "snd (deploy_to_apigee self Map.empty config organization (Some ''tok'') w) ''APIGEE_TOKEN''
     = Some ''tok''"
  by (simp add: deploy_environment_after truthy_def)

end
